theory Spec2Isabelle
  imports Main
begin

section \<open>JavaScript values\<close>

text \<open>
  The values that can be pushed on a stack, bound as \<open>this\<close> or passed to
  \<open>push_all\<close>. Values of a reference type carry the identity of the object
  (a number), so that equality of model values is JavaScript's \<open>===\<close>.
  A function is one of: an application callback (its identity, and the calls its body
  makes on stack_callback instances), or one of the two closures \<open>push_all\<close> builds
  (\<open>fire_if_ready\<close> and \<open>untriggered\<close>, bound to entry \<open>i\<close> of the
  \<open>stacks\<close> array of the \<open>b\<close>-th \<open>push_all\<close> call). \<open>JGlobal\<close> is the
  global object, which a function that is not in strict mode finds as \<open>this\<close> when it
  is called without one.
\<close>

datatype jsval =
    JUndefined
  | JNull
  | JBool bool
  | JNum int
  | JStr string
  | JObj nat
  | JGlobal
  | JArr nat "jsval list"
  | JQueue nat
  | JFun fn
and fn =
    AppFn nat "call list"
  | FireIfReady nat nat
  | Untriggered nat nat
and call =
    Push nat "jsval list"
  | Trigger nat
  | Stop nat
  | Remove nat jsval
  | Empty nat
  | AddTriggerEventListener nat jsval
  | AddStopEventListener nat jsval
  | SetBind nat jsval

fun truthy :: "jsval \<Rightarrow> bool" where
  "truthy JUndefined = False"
| "truthy JNull = False"
| "truthy (JBool b) = b"
| "truthy (JNum n) = (n \<noteq> 0)"
| "truthy (JStr s) = (s \<noteq> [])"
| "truthy _ = True"

text \<open>\<open>typeof v == 'function'\<close>, with the function when it holds.\<close>

fun as_function :: "jsval \<Rightarrow> fn option" where
  "as_function (JFun f) = Some f"
| "as_function _ = None"

definition is_function :: "jsval \<Rightarrow> bool" where
  "is_function v = (as_function v \<noteq> None)"

text \<open>\<open>v instanceof stack_callback\<close>, with the reference when it holds.\<close>

fun as_instance :: "jsval \<Rightarrow> nat option" where
  "as_instance (JQueue q) = Some q"
| "as_instance _ = None"

text \<open>
  The source calls functions of the underscore library (\<open>_.flatten\<close>,
  \<open>_.compact\<close>, \<open>_.indexOf\<close>, \<open>_.defer\<close>, \<open>_.each\<close>, \<open>_.every\<close>,
  \<open>_.bind\<close>, \<open>_.once\<close>, \<open>_.isFunction\<close>), which is no part of the repository.
  They are written out by their documented behaviour where the source uses them:
  \<open>_.flatten\<close> flattens nested arrays to any depth and \<open>_.compact\<close> drops the falsy
  values.
\<close>

fun flatten :: "jsval list \<Rightarrow> jsval list" where
  "flatten [] = []"
| "flatten (JArr a xs # ys) = flatten xs @ flatten ys"
| "flatten (x # ys) = x # flatten ys"

definition compact :: "jsval list \<Rightarrow> jsval list" where
  "compact xs = filter truthy xs"

section \<open>The store\<close>

text \<open>
  What \<open>stack.push\<close> currently is: the method inherited from \<open>Array.prototype\<close>
  (also the function \<open>stop\<close> installs, which only calls it), or the function installed
  by \<open>watch_stack\<close>, which appends and then calls \<open>dequeue\<close>.
\<close>

datatype push_impl = ArrayPush | Watching

text \<open>
  One instance of \<open>stack_callback\<close>: the public properties \<open>bind\<close>, \<open>refire\<close>
  and \<open>requeue\<close> (the last two by their truthiness) and the variables of the
  constructor's closure. The two listeners are references to other instances.
\<close>

record stack_callback =
  bind :: jsval
  refire :: bool
  requeue :: bool
  triggered :: bool
  stack :: "jsval list"
  stack_push :: push_impl
  trigger_event_listener :: "nat option"
  stop_event_listener :: "nat option"

text \<open>
  The closure of one \<open>push_all\<close> call: the \<open>stacks\<close> array of
  \<open>{stack_callback, triggered}\<close> entries, the function passed to \<open>_.once\<close>
  and the flag of the wrapper \<open>_.once\<close> returns.
\<close>

record push_all_closure =
  stacks :: "(nat \<times> bool) list"
  callback :: fn
  ran :: bool

datatype event =
    Invoked fn jsval
  | ConsoleLog string "jsval list"

record world =
  instances :: "stack_callback list"
  closures :: "push_all_closure list"
  deferred :: "(nat \<times> jsval \<times> jsval) list"
  trace :: "event list"

datatype error = OutOfFuel | TypeError

definition instance_at :: "world \<Rightarrow> nat \<Rightarrow> stack_callback option" where
  "instance_at w q = (if q < length (instances w) then Some (instances w ! q) else None)"

definition put_instance :: "nat \<Rightarrow> stack_callback \<Rightarrow> world \<Rightarrow> world" where
  "put_instance q Q w = w\<lparr>instances := (instances w)[q := Q]\<rparr>"

definition closure_at :: "world \<Rightarrow> nat \<Rightarrow> push_all_closure option" where
  "closure_at w b = (if b < length (closures w) then Some (closures w ! b) else None)"

definition put_closure :: "nat \<Rightarrow> push_all_closure \<Rightarrow> world \<Rightarrow> world" where
  "put_closure b B w = w\<lparr>closures := (closures w)[b := B]\<rparr>"

definition emit :: "event \<Rightarrow> world \<Rightarrow> world" where
  "emit e w = w\<lparr>trace := trace w @ [e]\<rparr>"

definition and_then :: "error + 'a \<Rightarrow> ('a \<Rightarrow> error + 'b) \<Rightarrow> error + 'b" where
  "and_then r k = (case r of Inl e \<Rightarrow> Inl e | Inr a \<Rightarrow> k a)"

section \<open>The constructor\<close>

text \<open>
  The arguments of \<open>new stack_callback\<close>. \<open>Options\<close> is the call with exactly one
  argument of type object, an object with the properties \<open>bind\<close>, \<open>refire\<close>,
  \<open>requeue\<close>, \<open>prepopulated_stack\<close>, \<open>trigger_callback\<close> and
  \<open>stop_callback\<close> (an absent property is \<open>JUndefined\<close>, or \<open>False\<close> for the
  two flags). \<open>Positional\<close> is every other call, with \<open>JUndefined\<close> for an absent
  argument.
\<close>

datatype ctor_arguments =
    Options jsval bool bool jsval jsval jsval
  | Positional jsval jsval

definition perfect_prepopulated_stack :: "jsval \<Rightarrow> jsval list" where
  "perfect_prepopulated_stack prepopulated_stack =
     flatten (compact (flatten [prepopulated_stack]))"

definition fresh_instance :: "jsval \<Rightarrow> bool \<Rightarrow> bool \<Rightarrow> jsval \<Rightarrow> stack_callback" where
  "fresh_instance b rf rq prepopulated_stack =
     \<lparr>bind = b, refire = rf, requeue = rq, triggered = False,
      stack = perfect_prepopulated_stack prepopulated_stack, stack_push = ArrayPush,
      trigger_event_listener = None, stop_event_listener = None\<rparr>"

text \<open>
  The constructor returns the reference of the new instance. With options, the
  registration of \<open>trigger_callback\<close> and \<open>stop_callback\<close> is deferred
  (\<open>_.defer\<close>): it is recorded in the store and runs with \<open>run_deferred\<close>.
\<close>

fun new_stack_callback :: "ctor_arguments \<Rightarrow> world \<Rightarrow> nat \<times> world" where
  "new_stack_callback (Options b rf rq prepopulated_stack tc sc) w =
     (length (instances w),
      w\<lparr>instances := instances w @ [fresh_instance b rf rq prepopulated_stack],
        deferred := deferred w @ [(length (instances w), tc, sc)]\<rparr>)"
| "new_stack_callback (Positional b prepopulated_stack) w =
     (length (instances w),
      w\<lparr>instances := instances w @
          [fresh_instance (if truthy b then b else JUndefined) False False prepopulated_stack]\<rparr>)"

section \<open>remove, empty, state\<close>

text \<open>\<open>_.indexOf\<close>: the first index holding the value, or -1.\<close>

fun indexOf :: "jsval list \<Rightarrow> jsval \<Rightarrow> int" where
  "indexOf [] v = -1"
| "indexOf (x # xs) v =
     (if x = v then 0 else (let i = indexOf xs v in if i < 0 then -1 else i + 1))"

text \<open>
  \<open>Array.prototype.splice(start, 1)\<close>: a negative start counts from the end, and the
  start is clamped to the array.
\<close>

definition splice1 :: "int \<Rightarrow> jsval list \<Rightarrow> jsval list" where
  "splice1 start xs =
     (let len = int (length xs);
          s = (if start < 0 then max (len + start) 0 else min start len)
      in take (nat s) xs @ drop (nat s + 1) xs)"

definition remove :: "nat \<Rightarrow> jsval \<Rightarrow> world \<Rightarrow> error + world" where
  "remove q callback_to_remove w =
     (case instance_at w q of
        None \<Rightarrow> Inl TypeError
      | Some Q \<Rightarrow>
          Inr (put_instance q
                 (Q\<lparr>stack := splice1 (indexOf (stack Q) callback_to_remove) (stack Q)\<rparr>) w))"

definition empty :: "nat \<Rightarrow> world \<Rightarrow> error + world" where
  "empty q w =
     (case instance_at w q of
        None \<Rightarrow> Inl TypeError
      | Some Q \<Rightarrow> Inr (put_instance q (Q\<lparr>stack := []\<rparr>) w))"

definition state :: "world \<Rightarrow> nat \<Rightarrow> string option" where
  "state w q =
     (case instance_at w q of
        None \<Rightarrow> None
      | Some Q \<Rightarrow> Some (if triggered Q then ''triggered'' else ''waiting''))"

definition set_bind :: "nat \<Rightarrow> jsval \<Rightarrow> world \<Rightarrow> error + world" where
  "set_bind q v w =
     (case instance_at w q of
        None \<Rightarrow> Inl TypeError
      | Some Q \<Rightarrow> Inr (put_instance q (Q\<lparr>bind := v\<rparr>) w))"

section \<open>push, trigger, stop and the drain\<close>

definition with_instance ::
  "world \<Rightarrow> nat \<Rightarrow> (stack_callback \<Rightarrow> error + world) \<Rightarrow> error + world" where
  "with_instance w q k = (case instance_at w q of None \<Rightarrow> Inl TypeError | Some Q \<Rightarrow> k Q)"

definition with_closure ::
  "world \<Rightarrow> nat \<Rightarrow> (push_all_closure \<Rightarrow> error + world) \<Rightarrow> error + world" where
  "with_closure w b k = (case closure_at w b of None \<Rightarrow> Inl TypeError | Some B \<Rightarrow> k B)"

definition set_entry :: "nat \<Rightarrow> bool \<Rightarrow> (nat \<times> bool) list \<Rightarrow> (nat \<times> bool) list" where
  "set_entry i v es = es[i := (fst (es ! i), v)]"

text \<open>
  The functions of an instance call each other and the callbacks, and a callback may call
  them back. A \<open>task\<close> names one such call: applying a function to \<open>this\<close>,
  running the body of an application callback, one method call on an instance, and the
  two private functions \<open>dequeue\<close> and its \<open>while\<close> loop. Each function is first
  written with the calls it makes as a parameter \<open>go\<close>; \<open>exec\<close> then closes the
  recursion, with a bound on the depth of calls and on the iterations of the loop: a run
  that exceeds it is \<open>Inl OutOfFuel\<close>. The value a method returns (\<open>false\<close> on
  an early exit, the instance for \<open>push\<close>) is used by no caller and is left out.
\<close>

datatype task =
    ApplyFn fn jsval
  | RunBody "call list"
  | Perform call
  | Dequeue nat
  | DequeueLoop nat

type_synonym runner = "task \<Rightarrow> world \<Rightarrow> error + world"

text \<open>
  \<open>f.apply(this)\<close>; the invocation is recorded in the trace with the \<open>this\<close>
  that is passed (the two closures of \<open>push_all\<close> are bound to their entry by
  \<open>_.bind\<close> and do not look at it). \<open>fire_if_ready\<close> sets the flag of its entry
  and, when \<open>_.every\<close> entry is set, calls the wrapper made by \<open>_.once\<close>: the
  wrapper calls the function the first time only, and sets \<open>ran\<close> before it does.
  The wrapper is called by \<open>final_callback.call()\<close>, without a \<open>this\<close>; it is a
  function of the underscore library, which is not in strict mode, so its own
  \<open>this\<close> is the global object, and it applies the function to that.
\<close>

definition apply_fn_body :: "runner \<Rightarrow> fn \<Rightarrow> jsval \<Rightarrow> world \<Rightarrow> error + world" where
  "apply_fn_body go f this w =
     (case f of
        AppFn _ body \<Rightarrow> go (RunBody body) (emit (Invoked f this) w)
      | FireIfReady b i \<Rightarrow>
          with_closure w b (\<lambda>B.
            if i < length (stacks B) then
              (let B1 = B\<lparr>stacks := set_entry i True (stacks B)\<rparr>;
                   w1 = emit (Invoked f this) w
               in if list_all snd (stacks B1) then
                    (if ran B1 then Inr (put_closure b B1 w1)
                     else go (ApplyFn (callback B1) JGlobal)
                            (put_closure b (B1\<lparr>ran := True\<rparr>) w1))
                  else Inr (put_closure b B1 w1))
            else Inl TypeError)
      | Untriggered b i \<Rightarrow>
          with_closure w b (\<lambda>B.
            if i < length (stacks B) then
              Inr (put_closure b (B\<lparr>stacks := set_entry i False (stacks B)\<rparr>)
                     (emit (Invoked f this) w))
            else Inl TypeError))"

definition run_body_body :: "runner \<Rightarrow> call list \<Rightarrow> world \<Rightarrow> error + world" where
  "run_body_body go cs w =
     (case cs of
        [] \<Rightarrow> Inr w
      | c # cs' \<Rightarrow> and_then (go (Perform c) w) (go (RunBody cs')))"

definition push_body :: "runner \<Rightarrow> nat \<Rightarrow> jsval list \<Rightarrow> world \<Rightarrow> error + world" where
  "push_body go q xs w =
     with_instance w q (\<lambda>Q.
       let w1 = put_instance q (Q\<lparr>stack := stack Q @ xs\<rparr>) w
       in case stack_push Q of
            ArrayPush \<Rightarrow> Inr w1
          | Watching \<Rightarrow> go (Dequeue q) w1)"

definition trigger_body :: "runner \<Rightarrow> nat \<Rightarrow> world \<Rightarrow> error + world" where
  "trigger_body go q w =
     with_instance w q (\<lambda>Q.
       if triggered Q then Inr w
       else
         and_then (go (Dequeue q) (put_instance q (Q\<lparr>triggered := True\<rparr>) w)) (\<lambda>w1.
         with_instance w1 q (\<lambda>Q1.
           let w2 = put_instance q (Q1\<lparr>stack_push := Watching\<rparr>) w1
           in case trigger_event_listener Q1 of
                None \<Rightarrow> Inr w2
              | Some t \<Rightarrow> go (Perform (Trigger t)) w2)))"

definition stop_body :: "runner \<Rightarrow> nat \<Rightarrow> world \<Rightarrow> error + world" where
  "stop_body go q w =
     with_instance w q (\<lambda>Q.
       if \<not> triggered Q then Inr w
       else
         (let w1 = put_instance q (Q\<lparr>triggered := False, stack_push := ArrayPush\<rparr>) w
          in case stop_event_listener Q of
               None \<Rightarrow> Inr w1
             | Some s \<Rightarrow> go (Perform (Trigger s)) w1))"

definition addTriggerEventListener_body ::
  "runner \<Rightarrow> nat \<Rightarrow> jsval \<Rightarrow> world \<Rightarrow> error + world" where
  "addTriggerEventListener_body go q responder w =
     (if \<not> is_function responder then Inr w
      else
        with_instance w q (\<lambda>Q.
          case trigger_event_listener Q of
            Some t \<Rightarrow> go (Perform (Push t [responder])) w
          | None \<Rightarrow>
              (let (t, w1) =
                     new_stack_callback
                       (Options (bind Q) True True JUndefined JUndefined JUndefined) w;
                   w2 = put_instance q (Q\<lparr>trigger_event_listener := Some t\<rparr>) w1
               in go (Perform (Push t [responder])) w2)))"

definition addStopEventListener_body ::
  "runner \<Rightarrow> nat \<Rightarrow> jsval \<Rightarrow> world \<Rightarrow> error + world" where
  "addStopEventListener_body go q responder w =
     (if \<not> is_function responder then Inr w
      else
        with_instance w q (\<lambda>Q.
          case stop_event_listener Q of
            Some s \<Rightarrow> go (Perform (Push s [responder])) w
          | None \<Rightarrow>
              (let (s, w1) =
                     new_stack_callback
                       (Options (bind Q) True True JUndefined JUndefined JUndefined) w;
                   w2 = put_instance q (Q\<lparr>stop_event_listener := Some s\<rparr>) w1
               in go (Perform (Push s [responder])) w2)))"

definition perform_body :: "runner \<Rightarrow> call \<Rightarrow> world \<Rightarrow> error + world" where
  "perform_body go c w =
     (case c of
        Push q xs \<Rightarrow> push_body go q xs w
      | Trigger q \<Rightarrow> trigger_body go q w
      | Stop q \<Rightarrow> stop_body go q w
      | Remove q x \<Rightarrow> remove q x w
      | Empty q \<Rightarrow> empty q w
      | AddTriggerEventListener q responder \<Rightarrow> addTriggerEventListener_body go q responder w
      | AddStopEventListener q responder \<Rightarrow> addStopEventListener_body go q responder w
      | SetBind q v \<Rightarrow> set_bind q v w)"

text \<open>The loop \<open>while (fn = stack.shift())\<close>: it ends when \<open>shift\<close> returns a falsy value.\<close>

definition dequeue_loop_body :: "runner \<Rightarrow> nat \<Rightarrow> world \<Rightarrow> error + world" where
  "dequeue_loop_body go q w =
     with_instance w q (\<lambda>Q.
       case stack Q of
         [] \<Rightarrow> Inr w
       | fn # rest \<Rightarrow>
           (let w1 = put_instance q (Q\<lparr>stack := rest\<rparr>) w
            in if \<not> truthy fn then Inr w1
               else
                 (case as_function fn of
                    Some f \<Rightarrow> and_then (go (ApplyFn f (bind Q)) w1) (go (DequeueLoop q))
                  | None \<Rightarrow> go (DequeueLoop q) w1)))"

text \<open>
  \<open>dequeue\<close>, in the three parts of its body: the copy of the stack and the loop; the
  \<open>if (scope.refire)\<close> block, which stops the instance and pushes the copy back; and
  the final check of \<open>requeue\<close> without \<open>refire\<close>.
\<close>

definition refire_block :: "runner \<Rightarrow> nat \<Rightarrow> jsval list \<Rightarrow> world \<Rightarrow> error + world" where
  "refire_block go q stack_copy w1 =
     with_instance w1 q (\<lambda>Q1.
       if refire Q1 then
         and_then
           (go (Perform (Stop q))
              (if stack Q1 \<noteq> [] then
                 emit (ConsoleLog ''Stack error. Unexecuted functions remaining on stack''
                         (stack Q1)) w1
               else w1))
           (\<lambda>w2.
              with_instance w2 q (\<lambda>Q2.
                Inr (if requeue Q2 then
                       put_instance q (Q2\<lparr>stack := stack Q2 @ stack_copy\<rparr>) w2
                     else w2)))
       else Inr w1)"

definition requeue_check :: "nat \<Rightarrow> world \<Rightarrow> error + world" where
  "requeue_check q w3 =
     with_instance w3 q (\<lambda>Q3.
       Inr (if \<not> refire Q3 \<and> requeue Q3 then
              emit (ConsoleLog ''Refire must be enabled to use Requeue'' []) w3
            else w3))"

definition dequeue_body :: "runner \<Rightarrow> nat \<Rightarrow> world \<Rightarrow> error + world" where
  "dequeue_body go q w =
     with_instance w q (\<lambda>Q.
       let stack_copy = (if requeue Q then stack Q else [])
       in
         and_then (go (DequeueLoop q) w) (\<lambda>w1.
         and_then (refire_block go q stack_copy w1) (requeue_check q)))"

definition step :: "runner \<Rightarrow> runner" where
  "step go t w =
     (case t of
        ApplyFn f this \<Rightarrow> apply_fn_body go f this w
      | RunBody cs \<Rightarrow> run_body_body go cs w
      | Perform c \<Rightarrow> perform_body go c w
      | Dequeue q \<Rightarrow> dequeue_body go q w
      | DequeueLoop q \<Rightarrow> dequeue_loop_body go q w)"

primrec exec :: "nat \<Rightarrow> runner" where
  "exec 0 = (\<lambda>t w. Inl OutOfFuel)"
| "exec (Suc n) = step (exec n)"

definition push :: "nat \<Rightarrow> nat \<Rightarrow> jsval list \<Rightarrow> world \<Rightarrow> error + world" where
  "push n q xs = exec n (Perform (Push q xs))"

definition trigger :: "nat \<Rightarrow> nat \<Rightarrow> world \<Rightarrow> error + world" where
  "trigger n q = exec n (Perform (Trigger q))"

definition stop :: "nat \<Rightarrow> nat \<Rightarrow> world \<Rightarrow> error + world" where
  "stop n q = exec n (Perform (Stop q))"

definition addTriggerEventListener :: "nat \<Rightarrow> nat \<Rightarrow> jsval \<Rightarrow> world \<Rightarrow> error + world" where
  "addTriggerEventListener n q responder = exec n (Perform (AddTriggerEventListener q responder))"

definition addStopEventListener :: "nat \<Rightarrow> nat \<Rightarrow> jsval \<Rightarrow> world \<Rightarrow> error + world" where
  "addStopEventListener n q responder = exec n (Perform (AddStopEventListener q responder))"

text \<open>A sequence of calls made from outside, one after the other.\<close>

fun perform_all :: "nat \<Rightarrow> call list \<Rightarrow> world \<Rightarrow> error + world" where
  "perform_all n [] w = Inr w"
| "perform_all n (c # cs) w = and_then (exec n (Perform c) w) (perform_all n cs)"

text \<open>
  The functions deferred by the constructors so far run once each, in the order of
  construction; a function deferred meanwhile waits for the next round.
\<close>

fun run_deferred_list :: "nat \<Rightarrow> (nat \<times> jsval \<times> jsval) list \<Rightarrow> world \<Rightarrow> error + world" where
  "run_deferred_list n [] w = Inr w"
| "run_deferred_list n ((q, tc, sc) # rest) w =
     and_then (addTriggerEventListener n q tc w) (\<lambda>w1.
     and_then (addStopEventListener n q sc w1) (run_deferred_list n rest))"

definition run_deferred :: "nat \<Rightarrow> world \<Rightarrow> error + world" where
  "run_deferred n w = run_deferred_list n (deferred w) (w\<lparr>deferred := []\<rparr>)"

definition new_world :: world where
  "new_world = \<lparr>instances = [], closures = [], deferred = [], trace = []\<rparr>"

section \<open>push_all\<close>

text \<open>
  The first \<open>_.each\<close>: every argument that is an instance adds an entry to
  \<open>stacks\<close>, every argument that is a function is assigned to \<open>callback\<close>.
\<close>

definition scan_argument ::
  "(nat \<times> bool) list \<times> fn option \<Rightarrow> jsval \<Rightarrow> (nat \<times> bool) list \<times> fn option" where
  "scan_argument acc argument =
     ((case as_instance argument of Some q \<Rightarrow> fst acc @ [(q, False)] | None \<Rightarrow> fst acc),
      (case as_function argument of Some f \<Rightarrow> Some f | None \<Rightarrow> snd acc))"

definition scan_arguments :: "jsval list \<Rightarrow> (nat \<times> bool) list \<times> fn option" where
  "scan_arguments arguments = foldl scan_argument ([], None) arguments"

text \<open>The second \<open>_.each\<close>, from entry \<open>i\<close> of the closure \<open>b\<close> on.\<close>

fun each_stack :: "nat \<Rightarrow> nat \<Rightarrow> nat \<Rightarrow> (nat \<times> bool) list \<Rightarrow> world \<Rightarrow> error + world" where
  "each_stack n b i [] w = Inr w"
| "each_stack n b i (e # rest) w =
     and_then (push n (fst e) [JFun (FireIfReady b i)] w) (\<lambda>w1.
     and_then (addTriggerEventListener n (fst e) (JFun (FireIfReady b i)) w1) (\<lambda>w2.
     and_then (addStopEventListener n (fst e) (JFun (Untriggered b i)) w2)
       (each_stack n b (Suc i) rest)))"

text \<open>
  \<open>push_all\<close> returns \<open>false\<close> when no argument is a function, after writing the
  message and the arguments to the console, and \<open>undefined\<close> otherwise.
\<close>

definition push_all :: "nat \<Rightarrow> jsval list \<Rightarrow> world \<Rightarrow> error + jsval \<times> world" where
  "push_all n arguments w =
     (case snd (scan_arguments arguments) of
        None \<Rightarrow>
          Inr (JBool False,
               emit (ConsoleLog ''Stack Push All missing a final callback function.'' arguments) w)
      | Some cb \<Rightarrow>
          (let b = length (closures w);
               es = fst (scan_arguments arguments);
               w1 = w\<lparr>closures := closures w @ [\<lparr>stacks = es, callback = cb, ran = False\<rparr>]\<rparr>
           in case each_stack n b 0 es w1 of
                Inl e \<Rightarrow> Inl e
              | Inr w2 \<Rightarrow> Inr (JUndefined, w2)))"

section \<open>Scenarios\<close>

text \<open>A fresh instance made by \<open>new stack_callback\<close> with no argument, in an empty store.\<close>

definition plain_queue :: world where
  "plain_queue = snd (new_stack_callback (Positional JUndefined JUndefined) new_world)"

text \<open>A fresh instance made with the options \<open>{refire: true}\<close>.\<close>

definition refire_queue :: world where
  "refire_queue =
     snd (new_stack_callback
            (Options JUndefined True False JUndefined JUndefined JUndefined) new_world)"

text \<open>What a scenario observes at the end: the state, the stack and the trace.\<close>

definition observe :: "nat \<Rightarrow> world \<Rightarrow> error + string option \<times> jsval list \<times> event list" where
  "observe q w =
     Inr (state w q, (case instance_at w q of None \<Rightarrow> [] | Some Q \<Rightarrow> stack Q), trace w)"

text \<open>The invocations recorded in a trace, each with its \<open>this\<close>, and their number for one function.\<close>

fun invocation :: "event \<Rightarrow> (fn \<times> jsval) option" where
  "invocation (Invoked f this) = Some (f, this)"
| "invocation (ConsoleLog m xs) = None"

definition invocations :: "event list \<Rightarrow> (fn \<times> jsval) list" where
  "invocations tr = List.map_filter invocation tr"

fun is_call_of :: "fn \<Rightarrow> event \<Rightarrow> bool" where
  "is_call_of f (Invoked g this) = (g = f)"
| "is_call_of f (ConsoleLog m xs) = False"

definition calls_of :: "fn \<Rightarrow> event list \<Rightarrow> nat" where
  "calls_of f tr = length (filter (is_call_of f) tr)"

section \<open>The store of a push_all over three instances\<close>

text \<open>
  The options \<open>{bind, refire, requeue}\<close> an instance is made with, and three fresh
  instances (references 0, 1 and 2) in an empty store.
\<close>

type_synonym options = "jsval \<times> bool \<times> bool"

definition new_with :: "options \<Rightarrow> world \<Rightarrow> world" where
  "new_with opts w =
     snd (new_stack_callback
            (Options (fst opts) (fst (snd opts)) (snd (snd opts)) JUndefined JUndefined JUndefined) w)"

definition three_queues :: "options \<Rightarrow> options \<Rightarrow> options \<Rightarrow> world" where
  "three_queues oa ob oc = new_with oc (new_with ob (new_with oa new_world))"

text \<open>
  After \<open>push_all(a, b, c, z)\<close> on these, every store that \<open>trigger\<close> and \<open>stop\<close>
  calls on the three instances can reach has the same shape. An instance and its two
  listeners are described by: its \<open>triggered\<close> flag, the three \<open>stack.push\<close>
  functions (its own, the trigger listener's, the stop listener's), the flag of its entry
  in \<open>stacks\<close>, and whether its stack still holds \<open>fire_if_ready\<close>.
\<close>

datatype wired = Wired bool push_impl push_impl push_impl bool bool

definition wired_instance ::
  "options \<Rightarrow> bool \<Rightarrow> push_impl \<Rightarrow> jsval list \<Rightarrow> nat \<Rightarrow> nat \<Rightarrow> stack_callback" where
  "wired_instance opts t m st te se =
     \<lparr>bind = fst opts, refire = fst (snd opts), requeue = snd (snd opts), triggered = t,
      stack = st, stack_push = m, trigger_event_listener = Some te,
      stop_event_listener = Some se\<rparr>"

definition listener_instance :: "options \<Rightarrow> fn \<Rightarrow> push_impl \<Rightarrow> stack_callback" where
  "listener_instance opts f m =
     \<lparr>bind = fst opts, refire = True, requeue = True, triggered = False, stack = [JFun f],
      stack_push = m, trigger_event_listener = None, stop_event_listener = None\<rparr>"

fun wired_main :: "options \<Rightarrow> nat \<Rightarrow> wired \<Rightarrow> stack_callback" where
  "wired_main opts i (Wired t m mt ms a st) =
     wired_instance opts t m (if st then [JFun (FireIfReady 0 i)] else []) (3 + 2 * i) (4 + 2 * i)"

fun wired_trigger_edge :: "options \<Rightarrow> nat \<Rightarrow> wired \<Rightarrow> stack_callback" where
  "wired_trigger_edge opts i (Wired t m mt ms a st) = listener_instance opts (FireIfReady 0 i) mt"

fun wired_stop_edge :: "options \<Rightarrow> nat \<Rightarrow> wired \<Rightarrow> stack_callback" where
  "wired_stop_edge opts i (Wired t m mt ms a st) = listener_instance opts (Untriggered 0 i) ms"

fun wired_flag :: "wired \<Rightarrow> bool" where
  "wired_flag (Wired t m mt ms a st) = a"

definition barrier_world ::
  "fn \<Rightarrow> bool \<Rightarrow> options \<Rightarrow> options \<Rightarrow> options \<Rightarrow> wired \<Rightarrow> wired \<Rightarrow> wired \<Rightarrow>
     event list \<Rightarrow> world" where
  "barrier_world z r oa ob oc sa sb sc l =
     \<lparr>instances =
        [wired_main oa 0 sa, wired_main ob 1 sb, wired_main oc 2 sc,
         wired_trigger_edge oa 0 sa, wired_stop_edge oa 0 sa,
         wired_trigger_edge ob 1 sb, wired_stop_edge ob 1 sb,
         wired_trigger_edge oc 2 sc, wired_stop_edge oc 2 sc],
      closures =
        [\<lparr>stacks = [(0, wired_flag sa), (1, wired_flag sb), (2, wired_flag sc)],
          callback = z, ran = r\<rparr>],
      deferred = [(0, JUndefined, JUndefined), (1, JUndefined, JUndefined),
                  (2, JUndefined, JUndefined), (3, JUndefined, JUndefined),
                  (4, JUndefined, JUndefined), (5, JUndefined, JUndefined),
                  (6, JUndefined, JUndefined), (7, JUndefined, JUndefined),
                  (8, JUndefined, JUndefined)],
      trace = l\<rparr>"

text \<open>The description right after \<open>push_all\<close>, and after a \<open>trigger\<close> or a \<open>stop\<close>.\<close>

definition just_wired :: wired where
  "just_wired = Wired False ArrayPush ArrayPush ArrayPush False True"

fun after_trigger :: "options \<Rightarrow> wired \<Rightarrow> wired" where
  "after_trigger opts (Wired t m mt ms a st) =
     (if t then Wired t m mt ms a st
      else if fst (snd opts) then Wired False Watching Watching Watching True (snd (snd opts) \<and> st)
      else Wired True Watching Watching ms True False)"

fun after_stop :: "wired \<Rightarrow> wired" where
  "after_stop (Wired t m mt ms a st) =
     (if t then Wired False ArrayPush mt Watching False st else Wired t m mt ms a st)"

text \<open>
  A run \<open>r\<close> from a store with trace \<open>l\<close> returns the store \<open>target\<close> (with some
  trace) and adds \<open>k\<close> calls of \<open>f\<close>.
\<close>

definition reaches :: "fn \<Rightarrow> event list \<Rightarrow> nat \<Rightarrow> world \<Rightarrow> error + world \<Rightarrow> bool" where
  "reaches f l k target r =
     (case r of
        Inl e \<Rightarrow> False
      | Inr w' \<Rightarrow> w'\<lparr>trace := []\<rparr> = target \<and> calls_of f (trace w') = calls_of f l + k)"

section \<open>What an observer sees of a store\<close>

text \<open>
  The flags \<open>refire\<close> and \<open>requeue\<close> of the instances of a store, and the relation
  "the instances of \<open>w\<close> are still there in \<open>w'\<close>, with the same flags".
\<close>

definition flags :: "world \<Rightarrow> (bool \<times> bool) list" where
  "flags w = map (\<lambda>Q. (refire Q, requeue Q)) (instances w)"

definition keeps_flags :: "world \<Rightarrow> world \<Rightarrow> bool" where
  "keeps_flags w w' = (take (length (flags w)) (flags w') = flags w)"

text \<open>
  The message \<open>dequeue\<close> writes for \<open>requeue\<close> without \<open>refire\<close>. An observer who
  disregards it, and the value of \<open>requeue\<close> on instances without \<open>refire\<close>, sees
  \<open>observable w\<close> of a store \<open>w\<close>: the states, the stacks, the listeners, the closures
  and the rest of the trace.
\<close>

definition requeue_warning :: event where
  "requeue_warning = ConsoleLog ''Refire must be enabled to use Requeue'' []"

definition effective :: "stack_callback \<Rightarrow> stack_callback" where
  "effective Q = Q\<lparr>requeue := (refire Q \<and> requeue Q)\<rparr>"

definition observable :: "world \<Rightarrow> world" where
  "observable w =
     w\<lparr>instances := map effective (instances w),
       trace := filter (\<lambda>e. e \<noteq> requeue_warning) (trace w)\<rparr>"

definition observed :: "error + world \<Rightarrow> error + world" where
  "observed r = (case r of Inl e \<Rightarrow> Inl e | Inr w \<Rightarrow> Inr (observable w))"

section \<open>Runs that return\<close>

text \<open>
  The task \<open>t\<close>, started in the store \<open>w\<close>, returns the store \<open>w'\<close>: every bound
  from some bound on is enough.
\<close>

definition returns :: "task \<Rightarrow> world \<Rightarrow> world \<Rightarrow> bool" where
  "returns t w w' = (\<exists>n0. \<forall>n\<ge>n0. exec n t w = Inr w')"

text \<open>The store \<open>w\<close> with the instance \<open>q\<close> replaced by \<open>Q\<close> and the trace extended by \<open>evs\<close>.\<close>

definition at_instance :: "world \<Rightarrow> nat \<Rightarrow> stack_callback \<Rightarrow> event list \<Rightarrow> world" where
  "at_instance w q Q evs = put_instance q Q (w\<lparr>trace := trace w @ evs\<rparr>)"

text \<open>
  The entries of a stack the drain of an instance \<open>q\<close> is followed through: a quiet
  entry is a truthy value that is no function, or a callback that calls no instance; a
  simple entry is a quiet one, or a callback whose body is one \<open>q.push(...)\<close> of quiet
  values. \<open>pushed x\<close> are the values \<open>x\<close> pushes, and \<open>calls this xs\<close> the invocations
  of the functions among \<open>xs\<close>, in order.
\<close>

fun quiet :: "jsval \<Rightarrow> bool" where
  "quiet (JFun (AppFn i [])) = True"
| "quiet (JFun f) = False"
| "quiet x = truthy x"

fun pushed :: "jsval \<Rightarrow> jsval list" where
  "pushed (JFun (AppFn i [Push q xs])) = xs"
| "pushed _ = []"

fun simple_item :: "nat \<Rightarrow> jsval \<Rightarrow> bool" where
  "simple_item q (JFun (AppFn i [Push q' xs])) = (q' = q \<and> list_all quiet xs)"
| "simple_item q x = quiet x"

definition calls :: "jsval \<Rightarrow> jsval list \<Rightarrow> event list" where
  "calls this xs = map (\<lambda>f. Invoked f this) (List.map_filter as_function xs)"

text \<open>
  An instance made with \<open>{bind: o7, refire: true, requeue: true, prepopulated_stack:
  [f1, f3]}\<close>, where \<open>f1\<close> pushes \<open>f2\<close> and the number 5 on it.
\<close>

definition requeue_example :: world where
  "requeue_example =
     snd (new_stack_callback
            (Options (JObj 7) True True
               (JArr 0 [JFun (AppFn 1 [Push 0 [JFun (AppFn 2 []), JNum 5]]), JFun (AppFn 3 [])])
               JUndefined JUndefined)
            new_world)"

definition requeue_example_instance :: stack_callback where
  "requeue_example_instance =
     \<lparr>bind = JObj 7, refire = True, requeue = True, triggered = False,
      stack = [JFun (AppFn 1 [Push 0 [JFun (AppFn 2 []), JNum 5]]), JFun (AppFn 3 [])],
      stack_push = ArrayPush, trigger_event_listener = None, stop_event_listener = None\<rparr>"

text \<open>
  An instance made with \<open>{refire: true, requeue: true, prepopulated_stack: [f1, f3]}\<close>,
  where \<open>f1\<close> pushes \<open>null\<close> and \<open>f2\<close> on it.
\<close>

definition null_push_example :: world where
  "null_push_example =
     snd (new_stack_callback
            (Options JUndefined True True
               (JArr 0 [JFun (AppFn 1 [Push 0 [JNull, JFun (AppFn 2 [])]]), JFun (AppFn 3 [])])
               JUndefined JUndefined)
            new_world)"

section \<open>The barriers of a store\<close>

text \<open>
  What the closures of a store say about the barriers built so far: for each
  \<open>push_all\<close> call, the instances in its \<open>stacks\<close> array, in order, and the
  function that was given to \<open>_.once\<close>.
\<close>

definition wiring :: "world \<Rightarrow> (nat list \<times> fn) list" where
  "wiring w = map (\<lambda>B. (map fst (stacks B), callback B)) (closures w)"

text \<open>
  A store in which no instance has been triggered yet: every \<open>stack.push\<close> is the
  array's own, and the listeners of the instances exist. \<open>grows w w'\<close> relates it to
  a later such store with the same closures.
\<close>

definition idle :: "world \<Rightarrow> bool" where
  "idle w =
     list_all (\<lambda>Q. stack_push Q = ArrayPush
        \<and> (case trigger_event_listener Q of None \<Rightarrow> True | Some t \<Rightarrow> t < length (instances w))
        \<and> (case stop_event_listener Q of None \<Rightarrow> True | Some s \<Rightarrow> s < length (instances w)))
       (instances w)"

definition grows :: "world \<Rightarrow> world \<Rightarrow> bool" where
  "grows w w' =
     (idle w' \<and> closures w' = closures w \<and> length (instances w) \<le> length (instances w'))"

section \<open>Edge listeners and their contexts\<close>

text \<open>
  An instance that \<open>addTriggerEventListener\<close> or \<open>addStopEventListener\<close> has made
  for the listeners of another one, seen between two calls: made with \<open>refire\<close> and
  \<open>requeue\<close>, waiting, without listeners of its own, holding quiet entries.
\<close>

definition leaf :: "world \<Rightarrow> nat \<Rightarrow> bool" where
  "leaf w t =
     (case instance_at w t of
        None \<Rightarrow> False
      | Some T \<Rightarrow>
          refire T \<and> requeue T \<and> \<not> triggered T \<and> trigger_event_listener T = None
          \<and> stop_event_listener T = None \<and> list_all quiet (stack T))"

text \<open>
  An instance \<open>q\<close> whose entries are quiet and whose listener instances, where it has
  them, are two different such instances. Every fresh instance is one, and the calls of
  \<open>edge_op\<close> keep it one.
\<close>

definition listening :: "world \<Rightarrow> nat \<Rightarrow> bool" where
  "listening w q =
     (case instance_at w q of
        None \<Rightarrow> False
      | Some Q \<Rightarrow>
          list_all quiet (stack Q)
          \<and> (case trigger_event_listener Q of None \<Rightarrow> True | Some t \<Rightarrow> t \<noteq> q \<and> leaf w t)
          \<and> (case stop_event_listener Q of
                None \<Rightarrow> True
              | Some s \<Rightarrow> s \<noteq> q \<and> leaf w s \<and> trigger_event_listener Q \<noteq> Some s))"


















section \<open>Evaluation\<close>

lemmas body_defs =
  step_def perform_body_def push_body_def trigger_body_def stop_body_def dequeue_body_def
  refire_block_def requeue_check_def
  dequeue_loop_body_def apply_fn_body_def run_body_body_def addTriggerEventListener_body_def
  addStopEventListener_body_def

lemmas store_defs =
  with_instance_def with_closure_def instance_at_def put_instance_def closure_at_def
  put_closure_def emit_def and_then_def set_entry_def

lemmas api_defs =
  push_def trigger_def stop_def addTriggerEventListener_def addStopEventListener_def
  remove_def empty_def set_bind_def state_def

lemmas scenario_defs =
  plain_queue_def refire_queue_def new_world_def fresh_instance_def
  perfect_prepopulated_stack_def compact_def observe_def is_function_def

lemmas eval_defs = scenario_defs api_defs body_defs store_defs eval_nat_numeral Let_def

lemmas wired_defs =
  barrier_world_def wired_instance_def listener_instance_def reaches_def calls_of_def

section \<open>Pushing while waiting\<close>

text \<open>
  Claim C1, at the input where the code departs from it. An instance made with
  \<open>{refire: true}\<close> gets one callback and is triggered: the callback runs and the
  instance is waiting again. A second callback pushed now, in the waiting state, is invoked
  at once by \<open>push\<close>, and the stack is empty afterwards: \<open>trigger\<close> calls
  \<open>watch_stack\<close> after \<open>dequeue\<close> has already stopped the instance.
\<close>

theorem push_after_refire_invokes:
  "and_then (and_then (push 20 0 [JFun (AppFn 1 [])] refire_queue) (trigger 20 0)) (observe 0)
     = Inr (Some ''waiting'', [], [Invoked (AppFn 1 []) JUndefined])
   \<and> and_then (and_then (and_then (push 20 0 [JFun (AppFn 1 [])] refire_queue) (trigger 20 0))
         (push 20 0 [JFun (AppFn 2 [])])) (observe 0)
     = Inr (Some ''waiting'', [],
            [Invoked (AppFn 1 []) JUndefined, Invoked (AppFn 2 []) JUndefined])"
  by (simp add: scenario_defs api_defs body_defs store_defs eval_nat_numeral)

section \<open>Falsy entries end the drain\<close>

text \<open>
  Claim C2, at the input where the code departs from it. \<open>push(null, f)\<close> followed by
  \<open>trigger()\<close>: the loop shifts \<open>null\<close> off the stack and ends, \<open>f\<close> is not
  invoked and stays on the stack of the triggered instance.
\<close>

theorem falsy_entry_ends_drain:
  "and_then (and_then (push 20 0 [JNull, JFun (AppFn 1 [])] plain_queue) (trigger 20 0))
     (observe 0)
     = Inr (Some ''triggered'', [JFun (AppFn 1 [])], [])"
  by (simp add: scenario_defs api_defs body_defs store_defs eval_nat_numeral)

section \<open>Requeue after a drain that a falsy entry ended\<close>

text \<open>
  Claim C4, at the input where the code departs from it. An instance made with
  \<open>refire\<close> and \<open>requeue\<close> holds \<open>f1\<close> and \<open>f3\<close>, and \<open>f1\<close> calls
  \<open>push(null, f2)\<close> on it. \<open>trigger()\<close> invokes \<open>f1\<close> and \<open>f3\<close>; the loop
  then shifts \<open>null\<close> off the stack and ends. \<open>f2\<close>, pushed during the drain, is not
  invoked: \<open>dequeue\<close> reports it on the console, stops the instance and pushes its copy
  of the stack behind it, so that the waiting instance now holds \<open>f2\<close>, \<open>f1\<close> and
  \<open>f3\<close>.
\<close>

theorem falsy_push_is_requeued:
  "and_then (trigger 20 0 null_push_example) (observe 0)
     = Inr (Some ''waiting'',
            [JFun (AppFn 2 []), JFun (AppFn 1 [Push 0 [JNull, JFun (AppFn 2 [])]]),
             JFun (AppFn 3 [])],
            [Invoked (AppFn 1 [Push 0 [JNull, JFun (AppFn 2 [])]]) JUndefined,
             Invoked (AppFn 3 []) JUndefined,
             ConsoleLog ''Stack error. Unexecuted functions remaining on stack''
               [JFun (AppFn 2 [])]])"
  by (simp add: null_push_example_def eval_defs)

section \<open>Registering a second listener\<close>

text \<open>
  Claim C3, at the input where the code departs from it. A listener \<open>f1\<close> is registered,
  the instance is triggered and stopped: \<open>f1\<close> has run once. Registering a second
  listener \<open>f2\<close> now invokes both \<open>f1\<close> and \<open>f2\<close>, although the instance stays
  waiting.
\<close>

theorem second_listener_registration_invokes:
  "and_then (and_then (and_then (addTriggerEventListener 20 0 (JFun (AppFn 1 [])) plain_queue)
       (trigger 20 0)) (stop 20 0)) (observe 0)
     = Inr (Some ''waiting'', [], [Invoked (AppFn 1 []) JUndefined])
   \<and> and_then (and_then (and_then (and_then
         (addTriggerEventListener 20 0 (JFun (AppFn 1 [])) plain_queue)
       (trigger 20 0)) (stop 20 0)) (addTriggerEventListener 20 0 (JFun (AppFn 2 []))))
       (observe 0)
     = Inr (Some ''waiting'', [],
            [Invoked (AppFn 1 []) JUndefined, Invoked (AppFn 1 []) JUndefined,
             Invoked (AppFn 2 []) JUndefined])"
  by (simp add: scenario_defs api_defs body_defs store_defs eval_nat_numeral)

section \<open>Removing an absent callback\<close>

text \<open>
  Claim C6, at the input where the code departs from it. The stack holds \<open>f1\<close> and
  \<open>f2\<close>; \<open>remove(f3)\<close> finds no entry, \<open>_.indexOf\<close> returns -1 and
  \<open>splice(-1, 1)\<close> removes the last entry, \<open>f2\<close>.
\<close>

theorem remove_absent_removes_last:
  "and_then (and_then (push 20 0 [JFun (AppFn 1 []), JFun (AppFn 2 [])] plain_queue)
      (remove 0 (JFun (AppFn 3 [])))) (observe 0)
     = Inr (Some ''waiting'', [JFun (AppFn 1 [])], [])"
  by (simp add: scenario_defs api_defs body_defs store_defs splice1_def eval_nat_numeral)

section \<open>push_all: the scan of the arguments\<close>

lemma map_filter_append: "List.map_filter g (xs @ ys) = List.map_filter g xs @ List.map_filter g ys"
  by (simp add: List.map_filter_def)

lemma map_filter_none: "(\<forall>x \<in> set xs. g x = None) \<Longrightarrow> List.map_filter g xs = []"
  by (induction xs) simp_all

lemma scan_foldl:
  "foldl scan_argument acc xs =
     (fst acc @ map (\<lambda>q. (q, False)) (List.map_filter as_instance xs),
      (if List.map_filter as_function xs = [] then snd acc
       else Some (last (List.map_filter as_function xs))))"
proof (induction xs arbitrary: acc)
  case Nil
  then show ?case by simp
next
  case (Cons x xs)
  have "foldl scan_argument acc (x # xs) = foldl scan_argument (scan_argument acc x) xs"
    by simp
  also have "\<dots> =
     (fst (scan_argument acc x) @ map (\<lambda>q. (q, False)) (List.map_filter as_instance xs),
      (if List.map_filter as_function xs = [] then snd (scan_argument acc x)
       else Some (last (List.map_filter as_function xs))))"
    by (rule Cons.IH)
  finally have eq: "foldl scan_argument acc (x # xs) =
     (fst (scan_argument acc x) @ map (\<lambda>q. (q, False)) (List.map_filter as_instance xs),
      (if List.map_filter as_function xs = [] then snd (scan_argument acc x)
       else Some (last (List.map_filter as_function xs))))" .
  show ?case
    unfolding eq
    by (simp add: scan_argument_def split: option.splits)
qed

lemma map_filter_as_instance_drop:
  "List.map_filter as_instance (filter (\<lambda>x. \<not> is_function x) xs) = List.map_filter as_instance xs"
proof (induction xs)
  case Nil
  show ?case by simp
next
  case (Cons x xs)
  then show ?case by (cases x) (simp_all add: is_function_def)
qed

lemma scan_last_function:
  assumes "\<forall>y \<in> set ys. \<not> is_function y"
  shows "scan_arguments (xs @ JFun f # ys) =
           (map (\<lambda>q. (q, False)) (List.map_filter as_instance (xs @ ys)), Some f)"
proof -
  have ys: "List.map_filter as_function ys = []"
    using assms by (intro map_filter_none) (simp add: is_function_def)
  have "List.map_filter as_function (xs @ JFun f # ys) = List.map_filter as_function xs @ [f]"
    by (simp add: map_filter_append ys)
  moreover have "List.map_filter as_instance (xs @ JFun f # ys) = List.map_filter as_instance (xs @ ys)"
    by (simp add: map_filter_append)
  ultimately show ?thesis
    unfolding scan_arguments_def scan_foldl
    by simp
qed


text \<open>
  Claim C7. When no argument of \<open>push_all\<close> is a function, the call returns
  \<open>false\<close> and the store it leaves differs from the one it found only by the message
  on the console: no instance has changed (state, stack, listeners), no closure exists
  and nothing was deferred. This holds whatever the bound on the depth of calls, since
  nothing is called.
\<close>

theorem push_all_without_function:
  assumes "\<forall>x \<in> set arguments. \<not> is_function x"
  shows "push_all n arguments w =
           Inr (JBool False,
                w\<lparr>trace := trace w @
                   [ConsoleLog ''Stack Push All missing a final callback function.'' arguments]\<rparr>)"
proof -
  have "List.map_filter as_function arguments = []"
    using assms by (intro map_filter_none) (simp add: is_function_def)
  then have "snd (scan_arguments arguments) = None"
    by (simp add: scan_arguments_def scan_foldl)
  then show ?thesis
    by (simp add: push_all_def emit_def)
qed


theorem push_all_without_function_witness:
  "\<not> is_function (JQueue 0) \<and> \<not> is_function (JNum 7)
   \<and> push_all 5 [JQueue 0, JNum 7] plain_queue =
       Inr (JBool False,
            plain_queue\<lparr>trace :=
              [ConsoleLog ''Stack Push All missing a final callback function.''
                 [JQueue 0, JNum 7]]\<rparr>)"
  using push_all_without_function [of "[JQueue 0, JNum 7]" 5 plain_queue]
  by (simp add: is_function_def plain_queue_def new_world_def)

section \<open>push_all over three instances\<close>

text \<open>
  Claim C5, at the input where the code departs from it. Three instances \<open>a\<close>,
  \<open>b\<close>, \<open>c\<close> (references 0, 1, 2), \<open>b\<close> made with \<open>{refire: true}\<close>.
  \<open>b.trigger()\<close> is called before the barrier is built: \<open>b\<close> has stopped itself
  and all three instances are waiting. \<open>push_all(a, b, c, z)\<close> pushes
  \<open>fire_if_ready\<close> on \<open>b\<close>, whose \<open>stack.push\<close> is still the watching function,
  so it runs at once and the entry of \<open>b\<close> is set. Triggering \<open>c\<close> does not invoke
  \<open>z\<close>; triggering \<open>a\<close> then invokes \<open>z\<close>, although \<open>b\<close> has not been
  triggered since the barrier was built and is waiting.
\<close>

theorem barrier_fires_without_trigger:
  "and_then
     (trigger 20 1
        (three_queues (JUndefined, False, False) (JUndefined, True, False)
           (JUndefined, False, False)))
     (\<lambda>w1.
        and_then (push_all 20 [JQueue 0, JQueue 1, JQueue 2, JFun (AppFn 26 [])] w1) (\<lambda>r.
        and_then (trigger 20 2 (snd r)) (\<lambda>w3.
        and_then (trigger 20 0 w3) (\<lambda>w4.
          Inr (map (state w1) [0, 1, 2], invocations (trace (snd r)),
               calls_of (AppFn 26 []) (trace w3), calls_of (AppFn 26 []) (trace w4),
               state w4 1)))))
   = Inr ([Some ''waiting'', Some ''waiting'', Some ''waiting''],
          [(FireIfReady 0 1, JUndefined)], 0, 1, Some ''waiting'')"
  by (simp add: push_all_def scan_arguments_def scan_argument_def three_queues_def new_with_def
        calls_of_def invocations_def List.map_filter_def eval_defs)

subsection \<open>Fresh instances\<close>

lemma trig0: "reaches (AppFn y []) l 0 (barrier_world z True oa ob oc (after_trigger oa sa) sb sc [])
    (exec 20 (Perform (Trigger 0)) (barrier_world z True oa ob oc sa sb sc l))"
  by (cases sa; cases sb; cases sc; cases oa; cases ob; cases oc) (simp add: eval_defs wired_defs)

lemma stop0: "reaches (AppFn y []) l 0 (barrier_world z True oa ob oc (after_stop sa) sb sc [])
    (exec 20 (Perform (Stop 0)) (barrier_world z True oa ob oc sa sb sc l))"
  by (cases sa; cases sb; cases sc; cases oa; cases ob; cases oc) (simp add: eval_defs wired_defs)

lemma trig1: "reaches (AppFn y []) l 0 (barrier_world z True oa ob oc sa (after_trigger ob sb) sc [])
    (exec 20 (Perform (Trigger 1)) (barrier_world z True oa ob oc sa sb sc l))"
  by (cases sa; cases sb; cases sc; cases oa; cases ob; cases oc) (simp add: eval_defs wired_defs)

lemma stop1: "reaches (AppFn y []) l 0 (barrier_world z True oa ob oc sa (after_stop sb) sc [])
    (exec 20 (Perform (Stop 1)) (barrier_world z True oa ob oc sa sb sc l))"
  by (cases sa; cases sb; cases sc; cases oa; cases ob; cases oc) (simp add: eval_defs wired_defs)

lemma trig2: "reaches (AppFn y []) l 0 (barrier_world z True oa ob oc sa sb (after_trigger oc sc) [])
    (exec 20 (Perform (Trigger 2)) (barrier_world z True oa ob oc sa sb sc l))"
  by (cases sa; cases sb; cases sc; cases oa; cases ob; cases oc) (simp add: eval_defs wired_defs)

lemma stop2: "reaches (AppFn y []) l 0 (barrier_world z True oa ob oc sa sb (after_stop sc) [])
    (exec 20 (Perform (Stop 2)) (barrier_world z True oa ob oc sa sb sc l))"
  by (cases sa; cases sb; cases sc; cases oa; cases ob; cases oc) (simp add: eval_defs wired_defs)

lemma wired0:
  "push_all 20 [JQueue 0, JQueue 1, JQueue 2, JFun z] (three_queues oa ob oc) =
     Inr (JUndefined, barrier_world z False oa ob oc just_wired just_wired just_wired [])"
  by (cases oa; cases ob; cases oc)
     (simp add: push_all_def scan_arguments_def scan_argument_def three_queues_def new_with_def
        just_wired_def eval_defs wired_defs)

lemma first_C:
  "reaches (AppFn y []) l 0
     (barrier_world (AppFn y []) False oa ob oc just_wired just_wired (after_trigger oc just_wired) [])
     (exec 20 (Perform (Trigger 2))
        (barrier_world (AppFn y []) False oa ob oc just_wired just_wired just_wired l))"
  by (cases oa; cases ob; cases oc) (simp add: just_wired_def eval_defs wired_defs)

lemma then_A:
  "reaches (AppFn y []) l 0
     (barrier_world (AppFn y []) False oa ob oc (after_trigger oa just_wired) just_wired
        (after_trigger oc just_wired) [])
     (exec 20 (Perform (Trigger 0))
        (barrier_world (AppFn y []) False oa ob oc just_wired just_wired
           (after_trigger oc just_wired) l))"
  by (cases oa; cases ob; cases oc) (simp add: just_wired_def eval_defs wired_defs)

lemma then_B:
  "reaches (AppFn y []) l 1
     (barrier_world (AppFn y []) True oa ob oc (after_trigger oa just_wired)
        (after_trigger ob just_wired) (after_trigger oc just_wired) [])
     (exec 20 (Perform (Trigger 1))
        (barrier_world (AppFn y []) False oa ob oc (after_trigger oa just_wired) just_wired
           (after_trigger oc just_wired) l))"
  by (cases oa; cases ob; cases oc) (simp add: just_wired_def eval_defs wired_defs)

lemma reachesE:
  assumes "reaches f l k (barrier_world z r oa ob oc sa sb sc []) res"
  obtains l' where "res = Inr (barrier_world z r oa ob oc sa sb sc l')"
    and "calls_of f l' = calls_of f l + k"
proof -
  from assms obtain w' where r: "res = Inr w'"
    and t: "w'\<lparr>trace := []\<rparr> = barrier_world z r oa ob oc sa sb sc []"
    and c: "calls_of f (trace w') = calls_of f l + k"
    by (cases res) (simp_all add: reaches_def)
  have "w' = (w'\<lparr>trace := []\<rparr>)\<lparr>trace := trace w'\<rparr>" by simp
  also have "\<dots> = barrier_world z r oa ob oc sa sb sc (trace w')"
    unfolding t by (simp add: barrier_world_def)
  finally show thesis using that r c by blast
qed

lemma barrier_world_closed:
  "set ops \<subseteq> Trigger ` {0, 1, 2} \<union> Stop ` {0, 1, 2} \<Longrightarrow>
   \<exists>sa' sb' sc' l'.
      perform_all 20 ops (barrier_world z True oa ob oc sa sb sc l) =
        Inr (barrier_world z True oa ob oc sa' sb' sc' l')
      \<and> calls_of (AppFn y []) l' = calls_of (AppFn y []) l"
proof (induction ops arbitrary: sa sb sc l)
  case Nil
  show ?case by auto
next
  case (Cons c cs)
  from Cons.prems have c: "c \<in> Trigger ` {0, 1, 2} \<union> Stop ` {0, 1, 2}"
    and cs: "set cs \<subseteq> Trigger ` {0, 1, 2} \<union> Stop ` {0, 1, 2}" by auto
  have "\<exists>sa1 sb1 sc1. reaches (AppFn y []) l 0 (barrier_world z True oa ob oc sa1 sb1 sc1 [])
           (exec 20 (Perform c) (barrier_world z True oa ob oc sa sb sc l))"
  proof -
    from c consider "c = Trigger 0" | "c = Trigger 1" | "c = Trigger 2"
      | "c = Stop 0" | "c = Stop 1" | "c = Stop 2" by auto
    then show ?thesis
    proof cases
      case 1 then show ?thesis using trig0 by blast
    next
      case 2 then show ?thesis using trig1 by blast
    next
      case 3 then show ?thesis using trig2 by blast
    next
      case 4 then show ?thesis using stop0 by blast
    next
      case 5 then show ?thesis using stop1 by blast
    next
      case 6 then show ?thesis using stop2 by blast
    qed
  qed
  then obtain sa1 sb1 sc1 l1 where
    1: "exec 20 (Perform c) (barrier_world z True oa ob oc sa sb sc l) =
          Inr (barrier_world z True oa ob oc sa1 sb1 sc1 l1)"
    and 2: "calls_of (AppFn y []) l1 = calls_of (AppFn y []) l"
    by (auto elim: reachesE)
  from Cons.IH [OF cs, of sa1 sb1 sc1 l1] obtain sa' sb' sc' l' where
    3: "perform_all 20 cs (barrier_world z True oa ob oc sa1 sb1 sc1 l1) =
          Inr (barrier_world z True oa ob oc sa' sb' sc' l')"
    and 4: "calls_of (AppFn y []) l' = calls_of (AppFn y []) l1" by blast
  show ?case
    apply (rule exI [of _ sa'], rule exI [of _ sb'], rule exI [of _ sc'], rule exI [of _ l'])
    using 1 2 3 4 by (simp add: and_then_def)
qed


text \<open>
  On instances that were never triggered the barrier does fire with the last trigger only.
  Three fresh instances \<open>a\<close>, \<open>b\<close>, \<open>c\<close> (references 0, 1, 2), made with any
  options, and a final callback \<open>z\<close> that calls no instance. After \<open>push_all(a, b, c,
  z)\<close>, triggering \<open>c\<close> does not invoke \<open>z\<close>, then triggering \<open>a\<close> does not invoke
  \<open>z\<close>, then triggering \<open>b\<close> invokes \<open>z\<close> once; and after any further sequence of
  \<open>trigger\<close> and \<open>stop\<close> calls on the three instances, \<open>z\<close> has still been invoked
  exactly once. Every call returns within the bound.
\<close>

theorem barrier_fires_once:
  "\<exists>w0 wC wA wB.
     push_all 20 [JQueue 0, JQueue 1, JQueue 2, JFun (AppFn z [])] (three_queues oa ob oc) =
       Inr (JUndefined, w0)
   \<and> calls_of (AppFn z []) (trace w0) = 0
   \<and> trigger 20 2 w0 = Inr wC \<and> calls_of (AppFn z []) (trace wC) = 0
   \<and> trigger 20 0 wC = Inr wA \<and> calls_of (AppFn z []) (trace wA) = 0
   \<and> trigger 20 1 wA = Inr wB \<and> calls_of (AppFn z []) (trace wB) = 1
   \<and> (\<forall>ops. set ops \<subseteq> Trigger ` {0, 1, 2} \<union> Stop ` {0, 1, 2} \<longrightarrow>
         (\<exists>w'. perform_all 20 ops wB = Inr w' \<and> calls_of (AppFn z []) (trace w') = 1))"
proof -
  let ?Z = "AppFn z []"
  let ?w0 = "barrier_world ?Z False oa ob oc just_wired just_wired just_wired []"
  have c0: "calls_of ?Z (trace ?w0) = 0"
    by (simp add: barrier_world_def calls_of_def)
  obtain lC where wC: "trigger 20 2 ?w0 =
      Inr (barrier_world ?Z False oa ob oc just_wired just_wired (after_trigger oc just_wired) lC)"
    and cC: "calls_of ?Z lC = 0"
    using first_C [of z "[]" oa ob oc] unfolding trigger_def
    by (rule reachesE) (simp add: calls_of_def)
  obtain lA where wA: "trigger 20 0
        (barrier_world ?Z False oa ob oc just_wired just_wired (after_trigger oc just_wired) lC) =
      Inr (barrier_world ?Z False oa ob oc (after_trigger oa just_wired) just_wired
             (after_trigger oc just_wired) lA)"
    and cA: "calls_of ?Z lA = 0"
    using then_A [of z lC oa ob oc] unfolding trigger_def
    by (rule reachesE) (simp add: cC)
  obtain lB where wB: "trigger 20 1
        (barrier_world ?Z False oa ob oc (after_trigger oa just_wired) just_wired
             (after_trigger oc just_wired) lA) =
      Inr (barrier_world ?Z True oa ob oc (after_trigger oa just_wired)
             (after_trigger ob just_wired) (after_trigger oc just_wired) lB)"
    and cB: "calls_of ?Z lB = 1"
    using then_B [of z lA oa ob oc] unfolding trigger_def
    by (rule reachesE) (simp add: cA)
  have rest: "\<exists>w'. perform_all 20 ops
        (barrier_world ?Z True oa ob oc (after_trigger oa just_wired)
             (after_trigger ob just_wired) (after_trigger oc just_wired) lB) = Inr w'
       \<and> calls_of ?Z (trace w') = 1"
    if "set ops \<subseteq> Trigger ` {0, 1, 2} \<union> Stop ` {0, 1, 2}" for ops
  proof -
    from barrier_world_closed [OF that, of ?Z oa ob oc _ _ _ lB z]
    obtain sa' sb' sc' l' where
      "perform_all 20 ops
        (barrier_world ?Z True oa ob oc (after_trigger oa just_wired)
             (after_trigger ob just_wired) (after_trigger oc just_wired) lB) =
        Inr (barrier_world ?Z True oa ob oc sa' sb' sc' l')"
      and "calls_of ?Z l' = calls_of ?Z lB" by blast
    then show ?thesis by (simp add: cB barrier_world_def)
  qed
  show ?thesis
    apply (rule exI [of _ ?w0])
    apply (rule exI, rule exI, rule exI)
    apply (intro conjI)
            apply (rule wired0)
           apply (rule c0)
          apply (rule wC)
         apply (simp add: barrier_world_def cC)
        apply (rule wA)
       apply (simp add: barrier_world_def cA)
      apply (rule wB)
     apply (simp add: barrier_world_def cB)
    using rest apply blast
    done
qed

theorem barrier_fires_once_witness:
  "\<exists>w0 wC wA wB.
     push_all 20 [JQueue 0, JQueue 1, JQueue 2, JFun (AppFn 26 [])]
        (three_queues (JUndefined, False, False) (JUndefined, True, True) (JUndefined, False, False)) =
       Inr (JUndefined, w0)
   \<and> trigger 20 2 w0 = Inr wC \<and> calls_of (AppFn 26 []) (trace wC) = 0
   \<and> trigger 20 0 wC = Inr wA \<and> calls_of (AppFn 26 []) (trace wA) = 0
   \<and> trigger 20 1 wA = Inr wB \<and> calls_of (AppFn 26 []) (trace wB) = 1
   \<and> (\<exists>w'. perform_all 20 [Trigger 0, Stop 0, Stop 1, Trigger 1, Trigger 0] wB = Inr w'
          \<and> calls_of (AppFn 26 []) (trace w') = 1)"
proof -
  have s: "set [Trigger 0, Stop 0, Stop 1, Trigger 1, Trigger 0]
             \<subseteq> Trigger ` {0, 1, 2} \<union> Stop ` {0, 1, 2}"
    by simp
  from barrier_fires_once [of 26 "(JUndefined, False, False)" "(JUndefined, True, True)"
      "(JUndefined, False, False)"]
  obtain w0 wC wA wB where
    "push_all 20 [JQueue 0, JQueue 1, JQueue 2, JFun (AppFn 26 [])]
        (three_queues (JUndefined, False, False) (JUndefined, True, True) (JUndefined, False, False)) =
       Inr (JUndefined, w0)"
    "trigger 20 2 w0 = Inr wC" "calls_of (AppFn 26 []) (trace wC) = 0"
    "trigger 20 0 wC = Inr wA" "calls_of (AppFn 26 []) (trace wA) = 0"
    "trigger 20 1 wA = Inr wB" "calls_of (AppFn 26 []) (trace wB) = 1"
    "\<forall>ops. set ops \<subseteq> Trigger ` {0, 1, 2} \<union> Stop ` {0, 1, 2} \<longrightarrow>
         (\<exists>w'. perform_all 20 ops wB = Inr w' \<and> calls_of (AppFn 26 []) (trace w') = 1)"
    by blast
  with s show ?thesis by blast
qed

section \<open>The flags of an instance are never assigned\<close>

lemma and_then_Inr: "and_then r k = Inr w' \<longleftrightarrow> (\<exists>a. r = Inr a \<and> k a = Inr w')"
  by (cases r) (simp_all add: and_then_def)

lemma with_instance_Inr:
  "with_instance w q k = Inr w' \<longleftrightarrow> (\<exists>Q. instance_at w q = Some Q \<and> k Q = Inr w')"
  by (simp add: with_instance_def split: option.splits)

lemma with_closure_Inr:
  "with_closure w b k = Inr w' \<longleftrightarrow> (\<exists>B. closure_at w b = Some B \<and> k B = Inr w')"
  by (simp add: with_closure_def split: option.splits)

lemma take_eq_length: "take (length ys) xs = ys \<Longrightarrow> length ys \<le> length xs"
proof -
  assume a: "take (length ys) xs = ys"
  have "length (take (length ys) xs) = min (length xs) (length ys)" by simp
  with a have "min (length xs) (length ys) = length ys" by simp
  then show ?thesis by (simp add: min_def split: if_splits)
qed

lemma kf_refl: "keeps_flags w w"
  by (simp add: keeps_flags_def)

lemma kf_trans: "keeps_flags a b \<Longrightarrow> keeps_flags b c \<Longrightarrow> keeps_flags a c"
proof -
  assume ab: "keeps_flags a b" and bc: "keeps_flags b c"
  have le: "length (flags a) \<le> length (flags b)"
    using ab unfolding keeps_flags_def by (rule take_eq_length)
  have "take (length (flags a)) (flags c) = take (length (flags a)) (take (length (flags b)) (flags c))"
    using le by (simp add: min_def)
  also have "\<dots> = flags a" using ab bc by (simp add: keeps_flags_def)
  finally show ?thesis by (simp add: keeps_flags_def)
qed

lemma kf_emit: "keeps_flags w (emit e w)"
  by (simp add: keeps_flags_def emit_def flags_def)

lemma kf_put_closure: "keeps_flags w (put_closure b B w)"
  by (simp add: keeps_flags_def put_closure_def flags_def)

lemma kf_put:
  "instance_at w q = Some Q \<Longrightarrow> refire Q' = refire Q \<Longrightarrow> requeue Q' = requeue Q \<Longrightarrow>
   keeps_flags w (put_instance q Q' w)"
  by (auto simp: keeps_flags_def put_instance_def flags_def instance_at_def map_update
      list_eq_iff_nth_eq nth_list_update split: if_splits)

lemma kf_new: "keeps_flags w (snd (new_stack_callback a w))"
  by (cases a) (simp_all add: keeps_flags_def flags_def)

lemma kf_instance:
  "keeps_flags w w' \<Longrightarrow> instance_at w q = Some Q \<Longrightarrow>
   \<exists>Q'. instance_at w' q = Some Q' \<and> refire Q' = refire Q \<and> requeue Q' = requeue Q"
proof -
  assume k: "keeps_flags w w'" and i: "instance_at w q = Some Q"
  from i have q: "q < length (instances w)" and Q: "Q = instances w ! q"
    by (auto simp: instance_at_def split: if_splits)
  from k have le: "length (flags w) \<le> length (flags w')"
    unfolding keeps_flags_def by (rule take_eq_length)
  then have q': "q < length (instances w')" using q by (simp add: flags_def)
  from k have "take (length (flags w)) (flags w') ! q = flags w ! q"
    by (simp add: keeps_flags_def)
  then have "flags w' ! q = flags w ! q" using q by (simp add: flags_def)
  then show ?thesis using q q' Q by (simp add: instance_at_def flags_def)
qed

lemma instance_at_Some:
  "instance_at w q = Some Q \<longleftrightarrow> q < length (instances w) \<and> instances w ! q = Q"
  by (auto simp: instance_at_def)

lemma flags_emit [simp]: "flags (emit e w) = flags w"
  by (simp add: flags_def emit_def)

lemma flags_put_closure [simp]: "flags (put_closure b B w) = flags w"
  by (simp add: flags_def put_closure_def)

lemma flags_put_instance:
  "q < length (instances w) \<Longrightarrow> refire Q' = refire (instances w ! q) \<Longrightarrow>
   requeue Q' = requeue (instances w ! q) \<Longrightarrow> flags (put_instance q Q' w) = flags w"
  by (simp add: flags_def put_instance_def map_update list_eq_iff_nth_eq nth_list_update)

lemma kf_flags: "flags w' = flags w \<Longrightarrow> keeps_flags w0 w' = keeps_flags w0 w"
  by (simp add: keeps_flags_def)

lemma kf_emit_iff [simp]: "keeps_flags w0 (emit e w) = keeps_flags w0 w"
  by (simp add: keeps_flags_def)

lemma kf_put_closure_iff [simp]: "keeps_flags w0 (put_closure b B w) = keeps_flags w0 w"
  by (simp add: keeps_flags_def)

lemma kf_put_iff:
  "q < length (instances w) \<Longrightarrow> refire Q' = refire (instances w ! q) \<Longrightarrow>
   requeue Q' = requeue (instances w ! q) \<Longrightarrow>
   keeps_flags w0 (put_instance q Q' w) = keeps_flags w0 w"
  by (simp add: keeps_flags_def flags_put_instance)

lemma kf_new': "keeps_flags w0 w \<Longrightarrow> keeps_flags w0 (snd (new_stack_callback a w))"
  by (rule kf_trans [OF _ kf_new])

lemma new_fst: "fst (new_stack_callback a w) = length (instances w)"
  by (cases a) simp_all

lemma new_instances_length: "length (instances (snd (new_stack_callback a w))) = Suc (length (instances w))"
  by (cases a) simp_all

lemma new_instances_nth:
  "q < length (instances w) \<Longrightarrow> instances (snd (new_stack_callback a w)) ! q = instances w ! q"
  by (cases a) (simp_all add: nth_append)


lemma kf_emit_iff2 [simp]: "keeps_flags (emit e w) w' = keeps_flags w w'"
  by (simp add: keeps_flags_def)

lemma kf_put_closure_iff2 [simp]: "keeps_flags (put_closure b B w) w' = keeps_flags w w'"
  by (simp add: keeps_flags_def)

lemma kf_put_iff2:
  "q < length (instances w) \<Longrightarrow> refire Q' = refire (instances w ! q) \<Longrightarrow>
   requeue Q' = requeue (instances w ! q) \<Longrightarrow>
   keeps_flags (put_instance q Q' w) w' = keeps_flags w w'"
  by (simp add: keeps_flags_def flags_put_instance)

lemma apply_fn_kf:
  assumes go: "\<And>t w w'. go t w = Inr w' \<Longrightarrow> keeps_flags w w'"
  shows "apply_fn_body go f this w = Inr w' \<Longrightarrow> keeps_flags w w'"
  by (cases f)
     (auto simp: apply_fn_body_def with_closure_Inr Let_def kf_refl split: if_splits dest!: go)

lemma run_body_kf:
  assumes go: "\<And>t w w'. go t w = Inr w' \<Longrightarrow> keeps_flags w w'"
  shows "run_body_body go cs w = Inr w' \<Longrightarrow> keeps_flags w w'"
  by (auto simp: run_body_body_def and_then_Inr kf_refl split: list.splits dest!: go intro: kf_trans)

lemma simple_kf:
  "remove q x w = Inr w' \<Longrightarrow> keeps_flags w w'"
  "empty q w = Inr w' \<Longrightarrow> keeps_flags w w'"
  "set_bind q x w = Inr w' \<Longrightarrow> keeps_flags w w'"
  by (auto simp: remove_def empty_def set_bind_def instance_at_Some kf_put_iff kf_refl
      split: option.splits)

lemma push_kf:
  assumes go: "\<And>t w w'. go t w = Inr w' \<Longrightarrow> keeps_flags w w'"
  shows "push_body go q xs w = Inr w' \<Longrightarrow> keeps_flags w w'"
  by (auto simp: push_body_def with_instance_Inr instance_at_Some Let_def kf_put_iff kf_put_iff2 kf_refl
      split: push_impl.splits dest!: go)

lemma stop_kf:
  assumes go: "\<And>t w w'. go t w = Inr w' \<Longrightarrow> keeps_flags w w'"
  shows "stop_body go q w = Inr w' \<Longrightarrow> keeps_flags w w'"
  by (auto simp: stop_body_def with_instance_Inr instance_at_Some Let_def kf_put_iff kf_put_iff2 kf_refl
      split: if_splits option.splits dest!: go)

lemma trigger_kf:
  assumes go: "\<And>t w w'. go t w = Inr w' \<Longrightarrow> keeps_flags w w'"
  shows "trigger_body go q w = Inr w' \<Longrightarrow> keeps_flags w w'"
  apply (auto simp: trigger_body_def with_instance_Inr and_then_Inr instance_at_Some Let_def
      kf_put_iff kf_put_iff2 kf_refl split: if_splits option.splits dest!: go)
   apply (blast intro: kf_trans)+
  done

lemma dequeue_loop_kf:
  assumes go: "\<And>t w w'. go t w = Inr w' \<Longrightarrow> keeps_flags w w'"
  shows "dequeue_loop_body go q w = Inr w' \<Longrightarrow> keeps_flags w w'"
  apply (auto simp: dequeue_loop_body_def with_instance_Inr and_then_Inr instance_at_Some Let_def
      kf_put_iff kf_put_iff2 kf_refl split: if_splits option.splits list.splits dest!: go)
   apply (blast intro: kf_trans)+
  done

lemma refire_block_kf:
  assumes go: "\<And>t w w'. go t w = Inr w' \<Longrightarrow> keeps_flags w w'"
  shows "refire_block go q c w = Inr w' \<Longrightarrow> keeps_flags w w'"
  apply (auto simp: refire_block_def with_instance_Inr and_then_Inr instance_at_Some Let_def
      kf_put_iff kf_put_iff2 kf_refl split: if_splits dest!: go)
  done

lemma requeue_check_kf:
  shows "requeue_check q w = Inr w' \<Longrightarrow> keeps_flags w w'"
  by (auto simp: requeue_check_def with_instance_Inr kf_refl split: if_splits)

lemma dequeue_kf:
  assumes go: "\<And>t w w'. go t w = Inr w' \<Longrightarrow> keeps_flags w w'"
  shows "dequeue_body go q w = Inr w' \<Longrightarrow> keeps_flags w w'"
proof -
  assume "dequeue_body go q w = Inr w'"
  then obtain c w1 w2 where 1: "go (DequeueLoop q) w = Inr w1"
    and 2: "refire_block go q c w1 = Inr w2" and 3: "requeue_check q w2 = Inr w'"
    by (auto simp: dequeue_body_def with_instance_Inr and_then_Inr Let_def)
  have "keeps_flags w1 w2"
    by (rule refire_block_kf [where go = go, OF _ 2]) (erule go)
  with go [OF 1] requeue_check_kf [OF 3]
  show ?thesis by (blast intro: kf_trans)
qed

lemma kf_new_iff:
  "keeps_flags (snd (new_stack_callback a w)) w' \<Longrightarrow> keeps_flags w w'"
  by (rule kf_trans [OF kf_new])

lemma add_listener_kf:
  assumes go: "\<And>t w w'. go t w = Inr w' \<Longrightarrow> keeps_flags w w'"
  shows "addTriggerEventListener_body go q r w = Inr w' \<Longrightarrow> keeps_flags w w'"
    and "addStopEventListener_body go q r w = Inr w' \<Longrightarrow> keeps_flags w w'"
   apply (auto simp: addTriggerEventListener_body_def addStopEventListener_body_def
      with_instance_Inr instance_at_Some Let_def new_instances_length new_instances_nth
      kf_put_iff kf_put_iff2 kf_refl split_beta
      simp del: new_stack_callback.simps split: if_splits option.splits
      dest!: go kf_new_iff)
  done

lemma perform_kf:
  assumes go: "\<And>t w w'. go t w = Inr w' \<Longrightarrow> keeps_flags w w'"
  shows "perform_body go c w = Inr w' \<Longrightarrow> keeps_flags w w'"
proof (cases c)
  case (Push q xs)
  assume "perform_body go c w = Inr w'"
  with Push have e: "push_body go q xs w = Inr w'" by (simp add: perform_body_def)
  show ?thesis by (rule push_kf [where go = go, OF _ e]) (erule go)
next
  case (Trigger q)
  assume "perform_body go c w = Inr w'"
  with Trigger have e: "trigger_body go q w = Inr w'" by (simp add: perform_body_def)
  show ?thesis by (rule trigger_kf [where go = go, OF _ e]) (erule go)
next
  case (Stop q)
  assume "perform_body go c w = Inr w'"
  with Stop have e: "stop_body go q w = Inr w'" by (simp add: perform_body_def)
  show ?thesis by (rule stop_kf [where go = go, OF _ e]) (erule go)
next
  case (Remove q x)
  assume "perform_body go c w = Inr w'"
  with Remove have e: "remove q x w = Inr w'" by (simp add: perform_body_def)
  show ?thesis by (rule simple_kf(1) [OF e])
next
  case (Empty q)
  assume "perform_body go c w = Inr w'"
  with Empty have e: "empty q w = Inr w'" by (simp add: perform_body_def)
  show ?thesis by (rule simple_kf(2) [OF e])
next
  case (AddTriggerEventListener q r)
  assume "perform_body go c w = Inr w'"
  with AddTriggerEventListener have e: "addTriggerEventListener_body go q r w = Inr w'"
    by (simp add: perform_body_def)
  show ?thesis by (rule add_listener_kf(1) [where go = go, OF _ e]) (erule go)
next
  case (AddStopEventListener q r)
  assume "perform_body go c w = Inr w'"
  with AddStopEventListener have e: "addStopEventListener_body go q r w = Inr w'"
    by (simp add: perform_body_def)
  show ?thesis by (rule add_listener_kf(2) [where go = go, OF _ e]) (erule go)
next
  case (SetBind q v)
  assume "perform_body go c w = Inr w'"
  with SetBind have e: "set_bind q v w = Inr w'" by (simp add: perform_body_def)
  show ?thesis by (rule simple_kf(3) [OF e])
qed

lemma step_kf:
  assumes go: "\<And>t w w'. go t w = Inr w' \<Longrightarrow> keeps_flags w w'"
  shows "step go t w = Inr w' \<Longrightarrow> keeps_flags w w'"
proof (cases t)
  case (ApplyFn f this)
  assume "step go t w = Inr w'"
  with ApplyFn have e: "apply_fn_body go f this w = Inr w'" by (simp add: step_def)
  show ?thesis by (rule apply_fn_kf [where go = go, OF _ e]) (erule go)
next
  case (RunBody cs)
  assume "step go t w = Inr w'"
  with RunBody have e: "run_body_body go cs w = Inr w'" by (simp add: step_def)
  show ?thesis by (rule run_body_kf [where go = go, OF _ e]) (erule go)
next
  case (Perform c)
  assume "step go t w = Inr w'"
  with Perform have e: "perform_body go c w = Inr w'" by (simp add: step_def)
  show ?thesis by (rule perform_kf [where go = go, OF _ e]) (erule go)
next
  case (Dequeue q)
  assume "step go t w = Inr w'"
  with Dequeue have e: "dequeue_body go q w = Inr w'" by (simp add: step_def)
  show ?thesis by (rule dequeue_kf [where go = go, OF _ e]) (erule go)
next
  case (DequeueLoop q)
  assume "step go t w = Inr w'"
  with DequeueLoop have e: "dequeue_loop_body go q w = Inr w'" by (simp add: step_def)
  show ?thesis by (rule dequeue_loop_kf [where go = go, OF _ e]) (erule go)
qed

lemma exec_kf: "exec n t w = Inr w' \<Longrightarrow> keeps_flags w w'"
proof (induction n arbitrary: t w w')
  case 0
  then show ?case by simp
next
  case (Suc n)
  from Suc.prems have e: "step (exec n) t w = Inr w'" by simp
  show ?case by (rule step_kf [where go = "exec n", OF _ e]) (erule Suc.IH)
qed

section \<open>push_all: the final callback\<close>

lemma wiring_emit [simp]: "wiring (emit e w) = wiring w"
  by (simp add: wiring_def emit_def)

lemma wiring_put_instance [simp]: "wiring (put_instance q Q w) = wiring w"
  by (simp add: wiring_def put_instance_def)

lemma wiring_new [simp]: "wiring (snd (new_stack_callback a w)) = wiring w"
  by (cases a) (simp_all add: wiring_def)

lemma map_fst_set_entry: "i < length es \<Longrightarrow> map fst (set_entry i v es) = map fst es"
  by (simp add: set_entry_def map_update list_eq_iff_nth_eq nth_list_update)

lemma closure_at_emit [simp]: "closure_at (emit e w) b = closure_at w b"
  by (simp add: closure_at_def emit_def)

lemma wiring_put_closure:
  "closure_at w b = Some B \<Longrightarrow> map fst (stacks B') = map fst (stacks B) \<Longrightarrow>
   callback B' = callback B \<Longrightarrow> wiring (put_closure b B' w) = wiring w"
  by (auto simp: wiring_def put_closure_def closure_at_def map_update list_eq_iff_nth_eq
      nth_list_update split: if_splits)

lemma apply_fn_wiring:
  assumes go: "\<And>t w w'. go t w = Inr w' \<Longrightarrow> wiring w' = wiring w"
  shows "apply_fn_body go f this w = Inr w' \<Longrightarrow> wiring w' = wiring w"
  by (cases f)
     (auto simp: apply_fn_body_def with_closure_Inr Let_def wiring_put_closure map_fst_set_entry
        split: if_splits dest!: go)

lemma run_body_wiring:
  assumes go: "\<And>t w w'. go t w = Inr w' \<Longrightarrow> wiring w' = wiring w"
  shows "run_body_body go cs w = Inr w' \<Longrightarrow> wiring w' = wiring w"
  by (auto simp: run_body_body_def and_then_Inr split: list.splits dest!: go)

lemma simple_wiring:
  "remove q x w = Inr w' \<Longrightarrow> wiring w' = wiring w"
  "empty q w = Inr w' \<Longrightarrow> wiring w' = wiring w"
  "set_bind q x w = Inr w' \<Longrightarrow> wiring w' = wiring w"
  by (auto simp: remove_def empty_def set_bind_def split: option.splits)

lemma push_wiring:
  assumes go: "\<And>t w w'. go t w = Inr w' \<Longrightarrow> wiring w' = wiring w"
  shows "push_body go q xs w = Inr w' \<Longrightarrow> wiring w' = wiring w"
proof -
  assume "push_body go q xs w = Inr w'"
  then obtain Q where e: "(case stack_push Q of
        ArrayPush \<Rightarrow> Inr (put_instance q (Q\<lparr>stack := stack Q @ xs\<rparr>) w)
      | Watching \<Rightarrow> go (Dequeue q) (put_instance q (Q\<lparr>stack := stack Q @ xs\<rparr>) w)) = Inr w'"
    by (auto simp: push_body_def with_instance_Inr Let_def)
  show ?thesis
    using e by (cases "stack_push Q") (auto dest!: go)
qed

lemma stop_wiring:
  assumes go: "\<And>t w w'. go t w = Inr w' \<Longrightarrow> wiring w' = wiring w"
  shows "stop_body go q w = Inr w' \<Longrightarrow> wiring w' = wiring w"
  by (auto simp: stop_body_def with_instance_Inr Let_def split: if_splits option.splits dest!: go)

lemma trigger_wiring:
  assumes go: "\<And>t w w'. go t w = Inr w' \<Longrightarrow> wiring w' = wiring w"
  shows "trigger_body go q w = Inr w' \<Longrightarrow> wiring w' = wiring w"
  by (auto simp: trigger_body_def with_instance_Inr and_then_Inr Let_def
      split: if_splits option.splits dest!: go)

lemma dequeue_loop_wiring:
  assumes go: "\<And>t w w'. go t w = Inr w' \<Longrightarrow> wiring w' = wiring w"
  shows "dequeue_loop_body go q w = Inr w' \<Longrightarrow> wiring w' = wiring w"
proof -
  assume "dequeue_loop_body go q w = Inr w'"
  then obtain Q where e: "(case stack Q of
         [] \<Rightarrow> Inr w
       | fn # rest \<Rightarrow>
           (let w1 = put_instance q (Q\<lparr>stack := rest\<rparr>) w
            in if \<not> truthy fn then Inr w1
               else
                 (case as_function fn of
                    Some f \<Rightarrow> and_then (go (ApplyFn f (bind Q)) w1) (go (DequeueLoop q))
                  | None \<Rightarrow> go (DequeueLoop q) w1))) = Inr w'"
    by (auto simp: dequeue_loop_body_def with_instance_Inr)
  show ?thesis
  proof (cases "stack Q")
    case Nil
    with e show ?thesis by simp
  next
    case (Cons x rest)
    show ?thesis
      using e unfolding Cons
      by (cases "truthy x"; cases "as_function x") (auto simp: Let_def and_then_Inr dest!: go)
  qed
qed

lemma refire_block_wiring:
  assumes go: "\<And>t w w'. go t w = Inr w' \<Longrightarrow> wiring w' = wiring w"
  shows "refire_block go q c w = Inr w' \<Longrightarrow> wiring w' = wiring w"
  by (auto simp: refire_block_def with_instance_Inr and_then_Inr Let_def split: if_splits dest!: go)

lemma requeue_check_wiring: "requeue_check q w = Inr w' \<Longrightarrow> wiring w' = wiring w"
  by (auto simp: requeue_check_def with_instance_Inr split: if_splits)

lemma dequeue_wiring:
  assumes go: "\<And>t w w'. go t w = Inr w' \<Longrightarrow> wiring w' = wiring w"
  shows "dequeue_body go q w = Inr w' \<Longrightarrow> wiring w' = wiring w"
proof -
  assume "dequeue_body go q w = Inr w'"
  then obtain c w1 w2 where 1: "go (DequeueLoop q) w = Inr w1"
    and 2: "refire_block go q c w1 = Inr w2" and 3: "requeue_check q w2 = Inr w'"
    by (auto simp: dequeue_body_def with_instance_Inr and_then_Inr Let_def)
  have "wiring w2 = wiring w1"
    by (rule refire_block_wiring [where go = go, OF _ 2]) (erule go)
  with go [OF 1] requeue_check_wiring [OF 3] show ?thesis by simp
qed

lemma add_listener_wiring:
  assumes go: "\<And>t w w'. go t w = Inr w' \<Longrightarrow> wiring w' = wiring w"
  shows "addTriggerEventListener_body go q r w = Inr w' \<Longrightarrow> wiring w' = wiring w"
    and "addStopEventListener_body go q r w = Inr w' \<Longrightarrow> wiring w' = wiring w"
  by (auto simp: addTriggerEventListener_body_def addStopEventListener_body_def
      with_instance_Inr Let_def split_beta
      simp del: new_stack_callback.simps split: if_splits option.splits dest!: go)

lemma perform_wiring:
  assumes go: "\<And>t w w'. go t w = Inr w' \<Longrightarrow> wiring w' = wiring w"
    and e: "perform_body go c w = Inr w'"
  shows "wiring w' = wiring w"
proof (cases c)
  case (Push q xs)
  with e have e: "push_body go q xs w = Inr w'" by (simp add: perform_body_def)
  show ?thesis by (rule push_wiring [where go = go, OF _ e]) (erule go)
next
  case (Trigger q)
  with e have e: "trigger_body go q w = Inr w'" by (simp add: perform_body_def)
  show ?thesis by (rule trigger_wiring [where go = go, OF _ e]) (erule go)
next
  case (Stop q)
  with e have e: "stop_body go q w = Inr w'" by (simp add: perform_body_def)
  show ?thesis by (rule stop_wiring [where go = go, OF _ e]) (erule go)
next
  case (Remove q x)
  with e have e: "remove q x w = Inr w'" by (simp add: perform_body_def)
  show ?thesis by (rule simple_wiring(1) [OF e])
next
  case (Empty q)
  with e have e: "empty q w = Inr w'" by (simp add: perform_body_def)
  show ?thesis by (rule simple_wiring(2) [OF e])
next
  case (AddTriggerEventListener q r)
  with e have e: "addTriggerEventListener_body go q r w = Inr w'"
    by (simp add: perform_body_def)
  show ?thesis by (rule add_listener_wiring(1) [where go = go, OF _ e]) (erule go)
next
  case (AddStopEventListener q r)
  with e have e: "addStopEventListener_body go q r w = Inr w'"
    by (simp add: perform_body_def)
  show ?thesis by (rule add_listener_wiring(2) [where go = go, OF _ e]) (erule go)
next
  case (SetBind q v)
  with e have e: "set_bind q v w = Inr w'" by (simp add: perform_body_def)
  show ?thesis by (rule simple_wiring(3) [OF e])
qed

lemma step_wiring:
  assumes go: "\<And>t w w'. go t w = Inr w' \<Longrightarrow> wiring w' = wiring w"
    and e: "step go t w = Inr w'"
  shows "wiring w' = wiring w"
proof (cases t)
  case (ApplyFn f this)
  with e have e: "apply_fn_body go f this w = Inr w'" by (simp add: step_def)
  show ?thesis by (rule apply_fn_wiring [where go = go, OF _ e]) (erule go)
next
  case (RunBody cs)
  with e have e: "run_body_body go cs w = Inr w'" by (simp add: step_def)
  show ?thesis by (rule run_body_wiring [where go = go, OF _ e]) (erule go)
next
  case (Perform c)
  with e have e: "perform_body go c w = Inr w'" by (simp add: step_def)
  show ?thesis by (rule perform_wiring [where go = go, OF _ e]) (erule go)
next
  case (Dequeue q)
  with e have e: "dequeue_body go q w = Inr w'" by (simp add: step_def)
  show ?thesis by (rule dequeue_wiring [where go = go, OF _ e]) (erule go)
next
  case (DequeueLoop q)
  with e have e: "dequeue_loop_body go q w = Inr w'" by (simp add: step_def)
  show ?thesis by (rule dequeue_loop_wiring [where go = go, OF _ e]) (erule go)
qed

lemma exec_wiring: "exec n t w = Inr w' \<Longrightarrow> wiring w' = wiring w"
proof (induction n arbitrary: t w w')
  case 0
  then show ?case by simp
next
  case (Suc n)
  show ?case
    by (rule step_wiring [where go = "exec n"]) (erule Suc.IH, use Suc.prems in simp)
qed

lemma each_stack_wiring: "each_stack n b i es w = Inr w' \<Longrightarrow> wiring w' = wiring w"
proof (induction es arbitrary: i w)
  case Nil
  then show ?case by simp
next
  case (Cons e es)
  from Cons.prems obtain w1 w2 w3 where
    1: "exec n (Perform (Push (fst e) [JFun (FireIfReady b i)])) w = Inr w1"
    and 2: "exec n (Perform (AddTriggerEventListener (fst e) (JFun (FireIfReady b i)))) w1 = Inr w2"
    and 3: "exec n (Perform (AddStopEventListener (fst e) (JFun (Untriggered b i)))) w2 = Inr w3"
    and 4: "each_stack n b (Suc i) es w3 = Inr w'"
    by (auto simp: and_then_Inr push_def addTriggerEventListener_def addStopEventListener_def)
  show ?case
    using exec_wiring [OF 1] exec_wiring [OF 2] exec_wiring [OF 3] Cons.IH [OF 4] by simp
qed

lemma idleD:
  assumes "idle w" and "q < length (instances w)"
  shows "stack_push (instances w ! q) = ArrayPush"
    and "trigger_event_listener (instances w ! q) = Some t \<Longrightarrow> t < length (instances w)"
    and "stop_event_listener (instances w ! q) = Some s \<Longrightarrow> s < length (instances w)"
  using assms by (auto simp: idle_def list_all_length split: option.splits)

lemma idle_put:
  assumes "idle w" and "q < length (instances w)" and "stack_push Q' = ArrayPush"
    and "\<And>t. trigger_event_listener Q' = Some t \<Longrightarrow> t < length (instances w)"
    and "\<And>s. stop_event_listener Q' = Some s \<Longrightarrow> s < length (instances w)"
  shows "idle (put_instance q Q' w)"
  using assms
  by (auto simp: idle_def list_all_length put_instance_def nth_list_update split: option.splits)

lemma idle_new:
  assumes "idle w"
  shows "idle (snd (new_stack_callback (Options b rf rq JUndefined tc sc) w))"
  using assms
  by (auto simp: idle_def list_all_length fresh_instance_def nth_append less_Suc_eq
      split: option.splits)

lemma push_idle:
  assumes "idle w" and "q < length (instances w)"
  shows "exec (Suc m) (Perform (Push q xs)) w =
           Inr (put_instance q ((instances w ! q)\<lparr>stack := stack (instances w ! q) @ xs\<rparr>) w)"
  using idleD(1) [OF assms]
  by (simp add: step_def perform_body_def push_body_def with_instance_def instance_at_def assms(2))

lemma idle_push:
  assumes "idle w" and "q < length (instances w)"
  shows "idle (put_instance q ((instances w ! q)\<lparr>stack := stack (instances w ! q) @ xs\<rparr>) w)"
  by (rule idle_put [OF assms]) (use idleD [OF assms] in auto)

lemma grows_push:
  assumes "idle w" and "q < length (instances w)"
  shows "\<exists>w'. exec (Suc m) (Perform (Push q xs)) w = Inr w' \<and> grows w w'"
  unfolding push_idle [OF assms]
  using idle_push [OF assms] by (simp add: grows_def put_instance_def)

lemma grows_trans: "grows a b \<Longrightarrow> grows b c \<Longrightarrow> grows a c"
  by (auto simp: grows_def)

lemma grows_add_trigger:
  assumes i: "idle w" and q: "q < length (instances w)"
  shows "\<exists>w'. exec (Suc (Suc m)) (Perform (AddTriggerEventListener q (JFun f))) w = Inr w'
           \<and> grows w w'"
proof (cases "trigger_event_listener (instances w ! q)")
  case (Some t)
  from idleD(2) [OF i q Some] have t: "t < length (instances w)" .
  from grows_push [OF i t, of m "[JFun f]"] show ?thesis
    using Some q
    by (simp add: step_def perform_body_def addTriggerEventListener_body_def is_function_def
        with_instance_def instance_at_def)
next
  case None
  let ?Q = "instances w ! q"
  let ?w1 = "snd (new_stack_callback (Options (bind ?Q) True True JUndefined JUndefined JUndefined) w)"
  let ?t = "length (instances w)"
  let ?w2 = "put_instance q (?Q\<lparr>trigger_event_listener := Some ?t\<rparr>) ?w1"
  have i1: "idle ?w1" by (rule idle_new [OF i])
  have q1: "q < length (instances ?w1)" using q by simp
  have i2: "idle ?w2"
    by (rule idle_put [OF i1 q1]) (use idleD [OF i q] in auto)
  have t2: "?t < length (instances ?w2)" by (simp add: put_instance_def)
  from grows_push [OF i2 t2, of m "[JFun f]"] obtain w' where
    e: "exec (Suc m) (Perform (Push ?t [JFun f])) ?w2 = Inr w'" and g: "grows ?w2 w'" by blast
  have "grows w ?w2" using i2 by (simp add: grows_def put_instance_def)
  with g have "grows w w'" by (blast intro: grows_trans)
  moreover have "exec (Suc (Suc m)) (Perform (AddTriggerEventListener q (JFun f))) w = Inr w'"
    using None q e
    by (subst exec.simps(2))
       (simp add: step_def perform_body_def addTriggerEventListener_body_def is_function_def
          with_instance_def instance_at_def del: exec.simps)
  ultimately show ?thesis by blast
qed

lemma grows_add_stop:
  assumes i: "idle w" and q: "q < length (instances w)"
  shows "\<exists>w'. exec (Suc (Suc m)) (Perform (AddStopEventListener q (JFun f))) w = Inr w'
           \<and> grows w w'"
proof (cases "stop_event_listener (instances w ! q)")
  case (Some t)
  from idleD(3) [OF i q Some] have t: "t < length (instances w)" .
  from grows_push [OF i t, of m "[JFun f]"] show ?thesis
    using Some q
    by (simp add: step_def perform_body_def addStopEventListener_body_def is_function_def
        with_instance_def instance_at_def)
next
  case None
  let ?Q = "instances w ! q"
  let ?w1 = "snd (new_stack_callback (Options (bind ?Q) True True JUndefined JUndefined JUndefined) w)"
  let ?t = "length (instances w)"
  let ?w2 = "put_instance q (?Q\<lparr>stop_event_listener := Some ?t\<rparr>) ?w1"
  have i1: "idle ?w1" by (rule idle_new [OF i])
  have q1: "q < length (instances ?w1)" using q by simp
  have i2: "idle ?w2"
    by (rule idle_put [OF i1 q1]) (use idleD [OF i q] in auto)
  have t2: "?t < length (instances ?w2)" by (simp add: put_instance_def)
  from grows_push [OF i2 t2, of m "[JFun f]"] obtain w' where
    e: "exec (Suc m) (Perform (Push ?t [JFun f])) ?w2 = Inr w'" and g: "grows ?w2 w'" by blast
  have "grows w ?w2" using i2 by (simp add: grows_def put_instance_def)
  with g have "grows w w'" by (blast intro: grows_trans)
  moreover have "exec (Suc (Suc m)) (Perform (AddStopEventListener q (JFun f))) w = Inr w'"
    using None q e
    by (subst exec.simps(2))
       (simp add: step_def perform_body_def addStopEventListener_body_def is_function_def
          with_instance_def instance_at_def del: exec.simps)
  ultimately show ?thesis by blast
qed

lemma each_stack_idle:
  assumes "idle w" and "\<forall>e \<in> set es. fst e < length (instances w)"
  shows "\<exists>w'. each_stack (Suc (Suc m)) b i es w = Inr w' \<and> grows w w'"
  using assms
proof (induction es arbitrary: i w)
  case Nil
  then show ?case by (simp add: grows_def)
next
  case (Cons e es)
  from Cons.prems have q: "fst e < length (instances w)" by simp
  from grows_push [OF Cons.prems(1) q] obtain w1 where
    1: "exec (Suc (Suc m)) (Perform (Push (fst e) [JFun (FireIfReady b i)])) w = Inr w1"
    and g1: "grows w w1" by blast
  from g1 q have i1: "idle w1" and q1: "fst e < length (instances w1)" by (auto simp: grows_def)
  from grows_add_trigger [OF i1 q1] obtain w2 where
    2: "exec (Suc (Suc m)) (Perform (AddTriggerEventListener (fst e) (JFun (FireIfReady b i)))) w1 = Inr w2"
    and g2: "grows w1 w2" by blast
  from g2 q1 have i2: "idle w2" and q2: "fst e < length (instances w2)" by (auto simp: grows_def)
  from grows_add_stop [OF i2 q2] obtain w3 where
    3: "exec (Suc (Suc m)) (Perform (AddStopEventListener (fst e) (JFun (Untriggered b i)))) w2 = Inr w3"
    and g3: "grows w2 w3" by blast
  have g: "grows w w3" using g1 g2 g3 by (blast intro: grows_trans)
  then have i3: "idle w3" and r: "\<forall>e \<in> set es. fst e < length (instances w3)"
    using Cons.prems(2) by (auto simp: grows_def)
  from Cons.IH [OF i3 r, of "Suc i"] obtain w' where
    4: "each_stack (Suc (Suc m)) b (Suc i) es w3 = Inr w'" and g4: "grows w3 w'" by blast
  have "each_stack (Suc (Suc m)) b i (e # es) w = Inr w'"
    using 1 2 3 4
    by (simp add: and_then_def push_def addTriggerEventListener_def addStopEventListener_def
        del: exec.simps)
  moreover have "grows w w'" using g g4 by (rule grows_trans)
  ultimately show ?case by blast
qed

lemma idle_closures [simp]: "idle (w\<lparr>closures := c\<rparr>) = idle w"
  by (simp add: idle_def cong: option.case_cong)

text \<open>
  Claim C10. \<open>push_all\<close> is called with the arguments \<open>xs\<close>, the function \<open>f\<close>
  and the arguments \<open>ys\<close>, none of which is a function, so that \<open>f\<close> is the last
  function; \<open>xs\<close> may hold any number of functions. Whenever the call returns, in any
  store, it returns \<open>undefined\<close> and has added one barrier: the function given to
  \<open>_.once\<close> is \<open>f\<close>, and the instances tracked are the instances among the
  arguments, so that no function is tracked. In a store where no instance was triggered yet
  and the instances passed exist, the call does return with any bound from 2 on, and the
  closure it leaves is the one of \<open>f\<close> with the flag of \<open>_.once\<close> not set and no entry
  set. In any store the call does exactly what it does when the functions before \<open>f\<close>
  are not passed at all: the store it leaves does not depend on them, and so nothing that
  happens later invokes them on behalf of the barrier.
\<close>

theorem push_all_last_function_wins:
  assumes "\<forall>y \<in> set ys. \<not> is_function y"
  shows "(\<forall>r w'. push_all n (xs @ JFun f # ys) w = Inr (r, w') \<longrightarrow>
            r = JUndefined
          \<and> wiring w' = wiring w @ [(List.map_filter as_instance (xs @ ys), f)])
       \<and> (idle w \<and> (\<forall>q \<in> set (List.map_filter as_instance (xs @ ys)). q < length (instances w))
            \<and> 2 \<le> n \<longrightarrow>
            (\<exists>w'. push_all n (xs @ JFun f # ys) w = Inr (JUndefined, w')
               \<and> closures w' = closures w @
                    [\<lparr>stacks = map (\<lambda>q. (q, False)) (List.map_filter as_instance (xs @ ys)),
                      callback = f, ran = False\<rparr>]))
       \<and> push_all n (xs @ JFun f # ys) w =
           push_all n (filter (\<lambda>x. \<not> is_function x) xs @ JFun f # ys) w"
proof -
  let ?es = "map (\<lambda>q. (q, False)) (List.map_filter as_instance (xs @ ys))"
  let ?w1 = "w\<lparr>closures := closures w @ [\<lparr>stacks = ?es, callback = f, ran = False\<rparr>]\<rparr>"
  have a: "scan_arguments (xs @ JFun f # ys) = (?es, Some f)"
    by (rule scan_last_function [OF assms])
  have b: "scan_arguments (filter (\<lambda>x. \<not> is_function x) xs @ JFun f # ys) = (?es, Some f)"
    by (simp add: scan_last_function [OF assms] map_filter_append map_filter_as_instance_drop)
  have p: "push_all n (xs @ JFun f # ys) w =
             (case each_stack n (length (closures w)) 0 ?es ?w1 of
                Inl e \<Rightarrow> Inl e | Inr w2 \<Rightarrow> Inr (JUndefined, w2))"
    by (simp add: push_all_def a Let_def)
  have w1: "wiring ?w1 = wiring w @ [(List.map_filter as_instance (xs @ ys), f)]"
    by (simp add: wiring_def comp_def)
  have 1: "r = JUndefined \<and> wiring w' = wiring w @ [(List.map_filter as_instance (xs @ ys), f)]"
    if "push_all n (xs @ JFun f # ys) w = Inr (r, w')" for r w'
  proof -
    from that obtain w2 where e: "each_stack n (length (closures w)) 0 ?es ?w1 = Inr w2"
      and r: "r = JUndefined" and w': "w' = w2"
      unfolding p by (auto split: sum.splits)
    from each_stack_wiring [OF e] w1 r w' show ?thesis by simp
  qed
  have 2: "\<exists>w'. push_all n (xs @ JFun f # ys) w = Inr (JUndefined, w')
               \<and> closures w' = closures w @ [\<lparr>stacks = ?es, callback = f, ran = False\<rparr>]"
    if i: "idle w" and q: "\<forall>q \<in> set (List.map_filter as_instance (xs @ ys)). q < length (instances w)"
      and n: "2 \<le> n"
  proof -
    from n obtain m where m: "n = Suc (Suc m)" by (metis Suc_le_D numeral_2_eq_2 le_Suc_ex add_2_eq_Suc)
    have i1: "idle ?w1" using i by simp
    have q1: "\<forall>e \<in> set ?es. fst e < length (instances ?w1)" using q by simp
    from each_stack_idle [OF i1 q1, of m "length (closures w)" 0] obtain w' where
      e: "each_stack n (length (closures w)) 0 ?es ?w1 = Inr w'" and g: "grows ?w1 w'"
      unfolding m by blast
    from g have "closures w' = closures w @ [\<lparr>stacks = ?es, callback = f, ran = False\<rparr>]"
      by (simp add: grows_def)
    with e show ?thesis unfolding p by simp
  qed
  have 3: "push_all n (xs @ JFun f # ys) w =
           push_all n (filter (\<lambda>x. \<not> is_function x) xs @ JFun f # ys) w"
    by (simp add: a b push_all_def del: filter_append)
  from 1 2 3 show ?thesis by blast
qed

theorem push_all_last_function_wins_witness:
  "\<not> is_function (JNum 7) \<and> idle plain_queue \<and> 0 < length (instances plain_queue)
   \<and> (\<exists>w'. push_all 20 ([JFun (AppFn 1 []), JQueue 0, JFun (AppFn 2 [])] @ JFun (AppFn 3 []) # [JNum 7])
              plain_queue = Inr (JUndefined, w')
         \<and> wiring w' = [([0], AppFn 3 [])]
         \<and> closures w' = [\<lparr>stacks = [(0, False)], callback = AppFn 3 [], ran = False\<rparr>])
   \<and> push_all 20 ([JFun (AppFn 1 []), JQueue 0, JFun (AppFn 2 [])] @ JFun (AppFn 3 []) # [JNum 7])
         plain_queue
     = push_all 20 ([JQueue 0] @ JFun (AppFn 3 []) # [JNum 7]) plain_queue
   \<and> and_then
        (push_all 20 ([JFun (AppFn 1 []), JQueue 0, JFun (AppFn 2 [])] @ JFun (AppFn 3 []) # [JNum 7])
           plain_queue)
        (\<lambda>r. and_then (perform_all 20 [Trigger 0, Stop 0, Trigger 0] (snd r)) (\<lambda>w2.
           Inr (map (\<lambda>g. calls_of g (trace w2)) [AppFn 1 [], AppFn 2 [], AppFn 3 []])))
     = Inr [0, 0, 1]"
proof -
  have h: "\<forall>y \<in> set [JNum 7]. \<not> is_function y" by (simp add: is_function_def)
  have i: "idle plain_queue" by (simp add: idle_def eval_defs)
  have l: "0 < length (instances plain_queue)" by (simp add: eval_defs)
  have w: "wiring plain_queue = []" "closures plain_queue = []"
    by (simp_all add: wiring_def eval_defs)
  have m: "List.map_filter as_instance ([JFun (AppFn 1 []), JQueue 0, JFun (AppFn 2 [])] @ [JNum 7]) = [0]"
    by (simp add: List.map_filter_def)
  have f: "filter (\<lambda>x. \<not> is_function x) [JFun (AppFn 1 []), JQueue 0, JFun (AppFn 2 [])] = [JQueue 0]"
    by (simp add: is_function_def)
  have run: "and_then
        (push_all 20 ([JFun (AppFn 1 []), JQueue 0, JFun (AppFn 2 [])] @ JFun (AppFn 3 []) # [JNum 7])
           plain_queue)
        (\<lambda>r. and_then (perform_all 20 [Trigger 0, Stop 0, Trigger 0] (snd r)) (\<lambda>w2.
           Inr (map (\<lambda>g. calls_of g (trace w2)) [AppFn 1 [], AppFn 2 [], AppFn 3 []])))
     = Inr [0, 0, 1]"
    by (simp add: push_all_def scan_arguments_def scan_argument_def calls_of_def eval_defs)
  let ?args = "[JFun (AppFn 1 []), JQueue 0, JFun (AppFn 2 [])] @ JFun (AppFn 3 []) # [JNum 7]"
  note t = push_all_last_function_wins [OF h, of 20 "[JFun (AppFn 1 []), JQueue 0, JFun (AppFn 2 [])]"
      "AppFn 3 []" plain_queue, unfolded m f w append_Nil list.map]
  note t1 = t [THEN conjunct1] and t2 = t [THEN conjunct2, THEN conjunct1]
    and q = t [THEN conjunct2, THEN conjunct2]
  have pre: "idle plain_queue \<and> (\<forall>q \<in> set [0]. q < length (instances plain_queue)) \<and> (2::nat) \<le> 20"
    using i l by simp
  from t2 [THEN mp, OF pre] obtain w' where
    e: "push_all 20 ?args plain_queue = Inr (JUndefined, w')"
    and c: "closures w' = [\<lparr>stacks = [(0, False)], callback = AppFn 3 [], ran = False\<rparr>]"
    by (elim exE conjE)
  from t1 [rule_format, OF e] have g: "wiring w' = [([0], AppFn 3 [])]" by (rule conjunct2)
  from e c g have ex: "\<exists>w'. push_all 20 ?args plain_queue = Inr (JUndefined, w')
         \<and> wiring w' = [([0], AppFn 3 [])]
         \<and> closures w' = [\<lparr>stacks = [(0, False)], callback = AppFn 3 [], ran = False\<rparr>]"
    by blast
  have nf: "\<not> is_function (JNum 7)" by (simp add: is_function_def)
  show ?thesis
    by (rule conjI [OF nf], rule conjI [OF i], rule conjI [OF l], rule conjI [OF ex],
        rule conjI [OF q run])
qed

section \<open>requeue without refire\<close>

lemma observed_simps [simp]:
  "observed (Inl e) = Inl e"
  "observed (Inr a) = observed (Inr b) \<longleftrightarrow> observable a = observable b"
  by (simp_all add: observed_def)

lemma observable_fields:
  assumes "observable w1 = observable w2"
  shows "map effective (instances w1) = map effective (instances w2)"
    and "closures w1 = closures w2" and "deferred w1 = deferred w2"
    and "length (instances w1) = length (instances w2)"
    and "filter (\<lambda>e. e \<noteq> requeue_warning) (trace w1) = filter (\<lambda>e. e \<noteq> requeue_warning) (trace w2)"
proof -
  from assms have "instances (observable w1) = instances (observable w2)" 
    and "closures (observable w1) = closures (observable w2)"
    and "deferred (observable w1) = deferred (observable w2)"
    and "trace (observable w1) = trace (observable w2)" by simp_all
  then show "map effective (instances w1) = map effective (instances w2)"
    and "closures w1 = closures w2" and "deferred w1 = deferred w2"
    and "filter (\<lambda>e. e \<noteq> requeue_warning) (trace w1) = filter (\<lambda>e. e \<noteq> requeue_warning) (trace w2)"
    by (simp_all add: observable_def)
  then show "length (instances w1) = length (instances w2)"
    by (metis length_map)
qed

lemma observableI:
  "map effective (instances w1) = map effective (instances w2) \<Longrightarrow>
   closures w1 = closures w2 \<Longrightarrow> deferred w1 = deferred w2 \<Longrightarrow>
   filter (\<lambda>e. e \<noteq> requeue_warning) (trace w1) = filter (\<lambda>e. e \<noteq> requeue_warning) (trace w2) \<Longrightarrow>
   observable w1 = observable w2"
  by (cases w1; cases w2) (simp add: observable_def)

lemma effective_fields:
  assumes "effective Q1 = effective Q2"
  shows "bind Q1 = bind Q2" "refire Q1 = refire Q2" "triggered Q1 = triggered Q2"
    "stack Q1 = stack Q2" "stack_push Q1 = stack_push Q2"
    "trigger_event_listener Q1 = trigger_event_listener Q2"
    "stop_event_listener Q1 = stop_event_listener Q2"
    "(refire Q1 \<and> requeue Q1) = (refire Q2 \<and> requeue Q2)"
proof -
  have "bind (effective Q1) = bind (effective Q2)" "refire (effective Q1) = refire (effective Q2)"
    "triggered (effective Q1) = triggered (effective Q2)" "stack (effective Q1) = stack (effective Q2)"
    "stack_push (effective Q1) = stack_push (effective Q2)"
    "trigger_event_listener (effective Q1) = trigger_event_listener (effective Q2)"
    "stop_event_listener (effective Q1) = stop_event_listener (effective Q2)"
    "requeue (effective Q1) = requeue (effective Q2)"
    using assms by simp_all
  then show "bind Q1 = bind Q2" "refire Q1 = refire Q2" "triggered Q1 = triggered Q2"
    "stack Q1 = stack Q2" "stack_push Q1 = stack_push Q2"
    "trigger_event_listener Q1 = trigger_event_listener Q2"
    "stop_event_listener Q1 = stop_event_listener Q2"
    "(refire Q1 \<and> requeue Q1) = (refire Q2 \<and> requeue Q2)"
    by (simp_all add: effective_def)
qed

lemma effectiveI:
  "bind Q1 = bind Q2 \<Longrightarrow> refire Q1 = refire Q2 \<Longrightarrow> triggered Q1 = triggered Q2 \<Longrightarrow>
   stack Q1 = stack Q2 \<Longrightarrow> stack_push Q1 = stack_push Q2 \<Longrightarrow>
   trigger_event_listener Q1 = trigger_event_listener Q2 \<Longrightarrow>
   stop_event_listener Q1 = stop_event_listener Q2 \<Longrightarrow>
   (refire Q1 \<and> requeue Q1) = (refire Q2 \<and> requeue Q2) \<Longrightarrow>
   effective Q1 = effective Q2"
  by (cases Q1; cases Q2) (simp add: effective_def)

lemma instance_at_observable:
  assumes "observable w1 = observable w2"
  shows "rel_option (\<lambda>Q1 Q2. effective Q1 = effective Q2) (instance_at w1 q) (instance_at w2 q)"
proof -
  note f = observable_fields [OF assms]
  show ?thesis
  proof (cases "q < length (instances w1)")
    case True
    then have "map effective (instances w1) ! q = effective (instances w1 ! q)"
      and "map effective (instances w2) ! q = effective (instances w2 ! q)"
      using f(4) by simp_all
    then show ?thesis using True f(1,4) by (simp add: instance_at_def)
  next
    case False
    then show ?thesis using f(4) by (simp add: instance_at_def)
  qed
qed

lemma with_instance_sim:
  assumes "observable w1 = observable w2"
    and "\<And>Q1 Q2. instance_at w1 q = Some Q1 \<Longrightarrow> instance_at w2 q = Some Q2 \<Longrightarrow>
           effective Q1 = effective Q2 \<Longrightarrow> observed (k1 Q1) = observed (k2 Q2)"
  shows "observed (with_instance w1 q k1) = observed (with_instance w2 q k2)"
  using instance_at_observable [OF assms(1), of q] assms(2)
  by (cases "instance_at w1 q"; cases "instance_at w2 q") (simp_all add: with_instance_def)

lemma with_closure_sim:
  assumes "observable w1 = observable w2"
    and "\<And>B. closure_at w1 b = Some B \<Longrightarrow> closure_at w2 b = Some B \<Longrightarrow>
           observed (k1 B) = observed (k2 B)"
  shows "observed (with_closure w1 b k1) = observed (with_closure w2 b k2)"
proof -
  have "closure_at w1 b = closure_at w2 b"
    using observable_fields(2) [OF assms(1)] by (simp add: closure_at_def)
  then show ?thesis using assms(2)
    by (cases "closure_at w2 b") (simp_all add: with_closure_def)
qed

lemma and_then_sim:
  assumes "observed r1 = observed r2"
    and "\<And>a b. r1 = Inr a \<Longrightarrow> r2 = Inr b \<Longrightarrow> observable a = observable b \<Longrightarrow>
           observed (k1 a) = observed (k2 b)"
  shows "observed (and_then r1 k1) = observed (and_then r2 k2)"
  using assms by (cases r1; cases r2) (simp_all add: and_then_def observed_def)

lemma obs_put:
  assumes "observable w1 = observable w2" and "effective Q1 = effective Q2"
  shows "observable (put_instance q Q1 w1) = observable (put_instance q Q2 w2)"
proof -
  note f = observable_fields [OF assms(1)]
  have "map effective ((instances w1)[q := Q1]) = map effective ((instances w2)[q := Q2])"
    using f(1) assms(2) by (simp add: map_update)
  then show ?thesis using f
    by (intro observableI) (simp_all add: put_instance_def)
qed

lemma obs_emit:
  assumes "observable w1 = observable w2"
  shows "observable (emit e w1) = observable (emit e w2)"
  using observable_fields [OF assms]
  by (intro observableI) (simp_all add: emit_def)

lemma obs_emit_warning_left:
  "observable (emit requeue_warning w1) = observable w2 \<longleftrightarrow> observable w1 = observable w2"
  by (simp add: observable_def emit_def)

lemma obs_emit_warning_right:
  "observable w1 = observable (emit requeue_warning w2) \<longleftrightarrow> observable w1 = observable w2"
  by (simp add: observable_def emit_def)

lemma obs_put_closure:
  assumes "observable w1 = observable w2"
  shows "observable (put_closure b B w1) = observable (put_closure b B w2)"
  using observable_fields [OF assms]
  by (intro observableI) (simp_all add: put_closure_def)

lemma effective_all:
  "effective Q1 = effective Q2 \<Longrightarrow>
   bind Q1 = bind Q2 \<and> refire Q1 = refire Q2 \<and> triggered Q1 = triggered Q2 \<and>
   stack Q1 = stack Q2 \<and> stack_push Q1 = stack_push Q2 \<and>
   trigger_event_listener Q1 = trigger_event_listener Q2 \<and>
   stop_event_listener Q1 = stop_event_listener Q2 \<and>
   (refire Q2 \<longrightarrow> requeue Q1 = requeue Q2)"
  using effective_fields [of Q1 Q2] by auto

lemma eff_upd:
  assumes "effective Q1 = effective Q2"
  shows "effective (Q1\<lparr>stack := s\<rparr>) = effective (Q2\<lparr>stack := s\<rparr>)"
    and "effective (Q1\<lparr>triggered := t\<rparr>) = effective (Q2\<lparr>triggered := t\<rparr>)"
    and "effective (Q1\<lparr>stack_push := m\<rparr>) = effective (Q2\<lparr>stack_push := m\<rparr>)"
    and "effective (Q1\<lparr>bind := b\<rparr>) = effective (Q2\<lparr>bind := b\<rparr>)"
    and "effective (Q1\<lparr>trigger_event_listener := l\<rparr>) = effective (Q2\<lparr>trigger_event_listener := l\<rparr>)"
    and "effective (Q1\<lparr>stop_event_listener := l\<rparr>) = effective (Q2\<lparr>stop_event_listener := l\<rparr>)"
  using effective_fields [OF assms] by (simp_all add: effective_def)

lemma with_instance_sim':
  assumes "observable w1 = observable w2"
    and "\<And>Q1 Q2. instance_at w1 q = Some Q1 \<Longrightarrow> instance_at w2 q = Some Q2 \<Longrightarrow>
           effective Q1 = effective Q2 \<Longrightarrow>
           bind Q1 = bind Q2 \<Longrightarrow> refire Q1 = refire Q2 \<Longrightarrow> triggered Q1 = triggered Q2 \<Longrightarrow>
           stack Q1 = stack Q2 \<Longrightarrow> stack_push Q1 = stack_push Q2 \<Longrightarrow>
           trigger_event_listener Q1 = trigger_event_listener Q2 \<Longrightarrow>
           stop_event_listener Q1 = stop_event_listener Q2 \<Longrightarrow>
           (refire Q2 \<longrightarrow> requeue Q1 = requeue Q2) \<Longrightarrow>
           observed (k1 Q1) = observed (k2 Q2)"
  shows "observed (with_instance w1 q k1) = observed (with_instance w2 q k2)"
proof (rule with_instance_sim [OF assms(1)])
  fix Q1 Q2
  assume a: "instance_at w1 q = Some Q1" "instance_at w2 q = Some Q2" "effective Q1 = effective Q2"
  from effective_all [OF a(3)] show "observed (k1 Q1) = observed (k2 Q2)"
    by (intro assms(2) a) simp_all
qed

lemma trigger_sim:
  assumes sim: "\<And>t w1 w2. observable w1 = observable w2 \<Longrightarrow> observed (go t w1) = observed (go t w2)"
  shows "observable w1 = observable w2 \<Longrightarrow>
         observed (trigger_body go q w1) = observed (trigger_body go q w2)"
  unfolding trigger_body_def Let_def
  apply (rule with_instance_sim', assumption)
  apply (simp)
  apply (intro impI and_then_sim sim obs_put eff_upd; assumption?)
  apply (rule with_instance_sim', assumption)
  apply (simp split: option.splits)
  apply (intro conjI impI allI sim obs_put eff_upd; assumption)
  done

lemma stop_sim:
  assumes sim: "\<And>t w1 w2. observable w1 = observable w2 \<Longrightarrow> observed (go t w1) = observed (go t w2)"
  shows "observable w1 = observable w2 \<Longrightarrow>
         observed (stop_body go q w1) = observed (stop_body go q w2)"
  unfolding stop_body_def Let_def
  apply (rule with_instance_sim', assumption)
  apply (simp split: option.splits)
  apply (intro conjI impI allI sim obs_put eff_upd; assumption)
  done

lemma push_sim:
  assumes sim: "\<And>t w1 w2. observable w1 = observable w2 \<Longrightarrow> observed (go t w1) = observed (go t w2)"
  shows "observable w1 = observable w2 \<Longrightarrow>
         observed (push_body go q xs w1) = observed (push_body go q xs w2)"
  unfolding push_body_def Let_def
  apply (rule with_instance_sim', assumption)
  apply (simp split: push_impl.splits)
  apply (intro conjI impI allI sim obs_put eff_upd; assumption)
  done

lemma apply_fn_sim:
  assumes sim: "\<And>t w1 w2. observable w1 = observable w2 \<Longrightarrow> observed (go t w1) = observed (go t w2)"
  shows "observable w1 = observable w2 \<Longrightarrow>
         observed (apply_fn_body go f this w1) = observed (apply_fn_body go f this w2)"
proof (cases f)
  case (AppFn i body)
  assume "observable w1 = observable w2"
  then show ?thesis
    unfolding apply_fn_body_def AppFn
    apply simp
    apply (intro sim obs_emit; assumption)
    done
next
  case (FireIfReady b i)
  assume o: "observable w1 = observable w2"
  show ?thesis
    unfolding apply_fn_body_def FireIfReady Let_def
    apply (simp)
    apply (rule with_closure_sim [OF o])
    apply (simp)
    apply (intro conjI impI sim obs_put_closure obs_emit o)
    done
next
  case (Untriggered b i)
  assume o: "observable w1 = observable w2"
  show ?thesis
    unfolding apply_fn_body_def Untriggered Let_def
    apply (simp)
    apply (rule with_closure_sim [OF o])
    apply (simp)
    apply (intro conjI impI sim obs_put_closure obs_emit o)
    done
qed

lemma run_body_sim:
  assumes sim: "\<And>t w1 w2. observable w1 = observable w2 \<Longrightarrow> observed (go t w1) = observed (go t w2)"
  shows "observable w1 = observable w2 \<Longrightarrow>
         observed (run_body_body go cs w1) = observed (run_body_body go cs w2)"
  unfolding run_body_body_def
  apply (cases cs)
   apply simp
  apply simp
  apply (intro and_then_sim sim; assumption)
  done

lemma dequeue_loop_sim:
  assumes sim: "\<And>t w1 w2. observable w1 = observable w2 \<Longrightarrow> observed (go t w1) = observed (go t w2)"
  shows "observable w1 = observable w2 \<Longrightarrow>
         observed (dequeue_loop_body go q w1) = observed (dequeue_loop_body go q w2)"
  unfolding dequeue_loop_body_def Let_def
  apply (rule with_instance_sim', assumption)
  apply (simp split: list.splits option.splits)
  apply (intro conjI impI allI and_then_sim sim obs_put eff_upd; assumption)
  done

lemma simple_sim:
  assumes o: "observable w1 = observable w2"
  shows "observed (remove q x w1) = observed (remove q x w2)"
    and "observed (empty q w1) = observed (empty q w2)"
    and "observed (set_bind q x w1) = observed (set_bind q x w2)"
proof -
  show "observed (remove q x w1) = observed (remove q x w2)"
    unfolding remove_def with_instance_def [symmetric]
    apply (rule with_instance_sim' [OF o])
    apply simp
    apply (intro obs_put eff_upd o; assumption)
    done
  show "observed (empty q w1) = observed (empty q w2)"
    unfolding empty_def with_instance_def [symmetric]
    apply (rule with_instance_sim' [OF o])
    apply simp
    apply (intro obs_put eff_upd o; assumption)
    done
  show "observed (set_bind q x w1) = observed (set_bind q x w2)"
    unfolding set_bind_def with_instance_def [symmetric]
    apply (rule with_instance_sim' [OF o])
    apply simp
    apply (intro obs_put eff_upd o; assumption)
    done
qed

lemma requeue_check_sim:
  "observable w1 = observable w2 \<Longrightarrow>
   observed (requeue_check q w1) = observed (requeue_check q w2)"
  unfolding requeue_check_def
  apply (rule with_instance_sim, assumption)
  apply (simp add: obs_emit_warning_left obs_emit_warning_right requeue_warning_def [symmetric])
  done

lemma refire_kept:
  assumes kf: "\<And>t w w'. go t w = Inr w' \<Longrightarrow> keeps_flags w w'"
    and "go t w = Inr w'" and "instance_at w q = Some Q" and "instance_at w' q = Some Q'"
  shows "refire Q' = refire Q" and "requeue Q' = requeue Q"
  using kf_instance [OF kf [OF assms(2)] assms(3)] assms(4) by auto

lemma instance_at_emit [simp]: "instance_at (emit e w) q = instance_at w q"
  by (simp add: instance_at_def emit_def)

lemma requeue_tail_sim:
  assumes o: "observable a = observable b"
    and r: "\<And>Qa Qb. instance_at a q = Some Qa \<Longrightarrow> instance_at b q = Some Qb \<Longrightarrow>
              requeue Qa = requeue Qb"
  shows "observed (with_instance a q (\<lambda>Q2. Inr (if requeue Q2
                 then put_instance q (Q2\<lparr>stack := stack Q2 @ c\<rparr>) a else a))) =
         observed (with_instance b q (\<lambda>Q2. Inr (if requeue Q2
                 then put_instance q (Q2\<lparr>stack := stack Q2 @ c\<rparr>) b else b)))"
  apply (rule with_instance_sim' [OF o])
  subgoal premises p for Qa Qb
  proof -
    have rq: "requeue Qa = requeue Qb" by (rule r [OF p(1) p(2)])
    have "observable (put_instance q (Qa\<lparr>stack := stack Qb @ c\<rparr>) a) =
          observable (put_instance q (Qb\<lparr>stack := stack Qb @ c\<rparr>) b)"
      by (intro obs_put eff_upd o p(3))
    then show ?thesis using rq p(7) o by simp
  qed
  done

lemma refire_block_sim:
  assumes sim: "\<And>t w1 w2. observable w1 = observable w2 \<Longrightarrow> observed (go t w1) = observed (go t w2)"
    and kf: "\<And>t w w'. go t w = Inr w' \<Longrightarrow> keeps_flags w w'"
    and o: "observable w1 = observable w2"
    and c: "\<And>Q. instance_at w2 q = Some Q \<Longrightarrow> refire Q \<Longrightarrow> c1 = c2"
  shows "observed (refire_block go q c1 w1) = observed (refire_block go q c2 w2)"
  unfolding refire_block_def
  apply (rule with_instance_sim' [OF o])
  subgoal premises p for Q1 Q2
  proof (cases "refire Q2")
    case False
    with p(5) o show ?thesis by simp
  next
    case True
    have cc: "c1 = c2" by (rule c [OF p(2) True])
    let ?m = "ConsoleLog ''Stack error. Unexecuted functions remaining on stack'' (stack Q2)"
    let ?v1 = "if stack Q2 \<noteq> [] then emit ?m w1 else w1"
    let ?v2 = "if stack Q2 \<noteq> [] then emit ?m w2 else w2"
    have ov: "observable ?v1 = observable ?v2"
      using obs_emit [OF o] o by simp
    have i2: "instance_at ?v2 q = Some Q2" using p(2) by simp
    have "observed
       (and_then (go (Perform (Stop q)) ?v1)
          (\<lambda>w2. with_instance w2 q (\<lambda>Q2. Inr (if requeue Q2
                 then put_instance q (Q2\<lparr>stack := stack Q2 @ c2\<rparr>) w2 else w2)))) =
      observed
       (and_then (go (Perform (Stop q)) ?v2)
          (\<lambda>w2. with_instance w2 q (\<lambda>Q2. Inr (if requeue Q2
                 then put_instance q (Q2\<lparr>stack := stack Q2 @ c2\<rparr>) w2 else w2))))"
      apply (rule and_then_sim [OF sim [OF ov]])
      subgoal premises s for a b
        apply (rule requeue_tail_sim [OF s(3)])
        subgoal premises u for Qa Qb
        proof -
          have "refire Qb = refire Q2"
            by (rule refire_kept(1) [where go = go, OF _ s(2) i2 u(2)]) (erule kf)
          moreover have "effective Qa = effective Qb"
            using instance_at_observable [OF s(3), of q] u by simp
          ultimately show ?thesis using True effective_all [of Qa Qb] by simp
        qed
        done
      done
    then show ?thesis using True p(5) p(7) unfolding cc by (cases "stack Q2 = []") simp_all
  qed
  done

lemma dequeue_sim:
  assumes sim: "\<And>t w1 w2. observable w1 = observable w2 \<Longrightarrow> observed (go t w1) = observed (go t w2)"
    and kf: "\<And>t w w'. go t w = Inr w' \<Longrightarrow> keeps_flags w w'"
    and o: "observable w1 = observable w2"
  shows "observed (dequeue_body go q w1) = observed (dequeue_body go q w2)"
  unfolding dequeue_body_def Let_def
  apply (rule with_instance_sim' [OF o])
  subgoal premises p for Q1 Q2
    apply (rule and_then_sim [OF sim [OF o]])
    subgoal premises s for a b
      apply (rule and_then_sim [OF _ requeue_check_sim])
       apply (rule refire_block_sim [where go = go, OF sim kf s(3)])
         apply assumption
        apply assumption
      subgoal premises u for Q
      proof -
        have "refire Q = refire Q2"
          by (rule refire_kept(1) [where go = go, OF _ s(2) p(2) u(1)]) (erule kf)
        with u(2) p(11) p(7) show ?thesis by simp
      qed
      apply assumption
      done
    done
  done

lemma obs_new:
  assumes o: "observable w1 = observable w2"
  shows "observable (snd (new_stack_callback a w1)) = observable (snd (new_stack_callback a w2))"
    and "fst (new_stack_callback a w1) = fst (new_stack_callback a w2)"
proof -
  note f = observable_fields [OF o]
  show "observable (snd (new_stack_callback a w1)) = observable (snd (new_stack_callback a w2))"
    using f by (cases a) (auto intro!: observableI)
  show "fst (new_stack_callback a w1) = fst (new_stack_callback a w2)"
    using f(4) by (simp add: new_fst)
qed

lemma add_trigger_sim:
  assumes sim: "\<And>t w1 w2. observable w1 = observable w2 \<Longrightarrow> observed (go t w1) = observed (go t w2)"
    and o: "observable w1 = observable w2"
  shows "observed (addTriggerEventListener_body go q r w1) =
         observed (addTriggerEventListener_body go q r w2)"
proof (cases "is_function r")
  case False
  then show ?thesis using o by (simp add: addTriggerEventListener_body_def)
next
  case True
  let ?n = "\<lambda>b w. new_stack_callback (Options b True True JUndefined JUndefined JUndefined) w"
  have "observed (with_instance w1 q (\<lambda>Q. case trigger_event_listener Q of
            None \<Rightarrow> go (Perform (Push (fst (?n (bind Q) w1)) [r]))
                     (put_instance q (Q\<lparr>trigger_event_listener := Some (fst (?n (bind Q) w1))\<rparr>)
                        (snd (?n (bind Q) w1)))
          | Some t \<Rightarrow> go (Perform (Push t [r])) w1)) =
        observed (with_instance w2 q (\<lambda>Q. case trigger_event_listener Q of
            None \<Rightarrow> go (Perform (Push (fst (?n (bind Q) w2)) [r]))
                     (put_instance q (Q\<lparr>trigger_event_listener := Some (fst (?n (bind Q) w2))\<rparr>)
                        (snd (?n (bind Q) w2)))
          | Some t \<Rightarrow> go (Perform (Push t [r])) w2))"
    apply (rule with_instance_sim' [OF o])
    subgoal premises p for Q1 Q2
    proof (cases "trigger_event_listener Q2")
      case None
      have "observed (go (Perform (Push (fst (?n (bind Q2) w2)) [r]))
                     (put_instance q (Q1\<lparr>trigger_event_listener := Some (fst (?n (bind Q2) w2))\<rparr>)
                        (snd (?n (bind Q2) w1)))) =
            observed (go (Perform (Push (fst (?n (bind Q2) w2)) [r]))
                     (put_instance q (Q2\<lparr>trigger_event_listener := Some (fst (?n (bind Q2) w2))\<rparr>)
                        (snd (?n (bind Q2) w2))))"
        by (intro sim obs_put eff_upd obs_new(1) o p(3))
      then show ?thesis
        using None p(4) p(9) obs_new(2) [OF o, of "Options (bind Q2) True True JUndefined JUndefined JUndefined"]
        by (simp del: new_stack_callback.simps)
    next
      case (Some t)
      then show ?thesis using p(9) sim [OF o] by simp
    qed
    done
  then show ?thesis
    unfolding addTriggerEventListener_body_def Let_def split_beta using True by simp
qed

lemma add_stop_sim:
  assumes sim: "\<And>t w1 w2. observable w1 = observable w2 \<Longrightarrow> observed (go t w1) = observed (go t w2)"
    and o: "observable w1 = observable w2"
  shows "observed (addStopEventListener_body go q r w1) =
         observed (addStopEventListener_body go q r w2)"
proof (cases "is_function r")
  case False
  then show ?thesis using o by (simp add: addStopEventListener_body_def)
next
  case True
  let ?n = "\<lambda>b w. new_stack_callback (Options b True True JUndefined JUndefined JUndefined) w"
  have "observed (with_instance w1 q (\<lambda>Q. case stop_event_listener Q of
            None \<Rightarrow> go (Perform (Push (fst (?n (bind Q) w1)) [r]))
                     (put_instance q (Q\<lparr>stop_event_listener := Some (fst (?n (bind Q) w1))\<rparr>)
                        (snd (?n (bind Q) w1)))
          | Some t \<Rightarrow> go (Perform (Push t [r])) w1)) =
        observed (with_instance w2 q (\<lambda>Q. case stop_event_listener Q of
            None \<Rightarrow> go (Perform (Push (fst (?n (bind Q) w2)) [r]))
                     (put_instance q (Q\<lparr>stop_event_listener := Some (fst (?n (bind Q) w2))\<rparr>)
                        (snd (?n (bind Q) w2)))
          | Some t \<Rightarrow> go (Perform (Push t [r])) w2))"
    apply (rule with_instance_sim' [OF o])
    subgoal premises p for Q1 Q2
    proof (cases "stop_event_listener Q2")
      case None
      have "observed (go (Perform (Push (fst (?n (bind Q2) w2)) [r]))
                     (put_instance q (Q1\<lparr>stop_event_listener := Some (fst (?n (bind Q2) w2))\<rparr>)
                        (snd (?n (bind Q2) w1)))) =
            observed (go (Perform (Push (fst (?n (bind Q2) w2)) [r]))
                     (put_instance q (Q2\<lparr>stop_event_listener := Some (fst (?n (bind Q2) w2))\<rparr>)
                        (snd (?n (bind Q2) w2))))"
        by (intro sim obs_put eff_upd obs_new(1) o p(3))
      then show ?thesis
        using None p(4) p(10) obs_new(2) [OF o, of "Options (bind Q2) True True JUndefined JUndefined JUndefined"]
        by (simp del: new_stack_callback.simps)
    next
      case (Some t)
      then show ?thesis using p(10) sim [OF o] by simp
    qed
    done
  then show ?thesis
    unfolding addStopEventListener_body_def Let_def split_beta using True by simp
qed

lemma perform_sim:
  assumes sim: "\<And>t w1 w2. observable w1 = observable w2 \<Longrightarrow> observed (go t w1) = observed (go t w2)"
    and o: "observable w1 = observable w2"
  shows "observed (perform_body go c w1) = observed (perform_body go c w2)"
proof (cases c)
  case (Push q xs)
  show ?thesis unfolding perform_body_def Push call.case
    by (rule push_sim [where go = go, OF sim o])
next
  case (Trigger q)
  show ?thesis unfolding perform_body_def Trigger call.case
    by (rule trigger_sim [where go = go, OF sim o])
next
  case (Stop q)
  show ?thesis unfolding perform_body_def Stop call.case
    by (rule stop_sim [where go = go, OF sim o])
next
  case (Remove q x)
  show ?thesis unfolding perform_body_def Remove call.case
    by (rule simple_sim(1) [OF o])
next
  case (Empty q)
  show ?thesis unfolding perform_body_def Empty call.case
    by (rule simple_sim(2) [OF o])
next
  case (AddTriggerEventListener q r)
  show ?thesis unfolding perform_body_def AddTriggerEventListener call.case
    by (rule add_trigger_sim [where go = go, OF sim o])
next
  case (AddStopEventListener q r)
  show ?thesis unfolding perform_body_def AddStopEventListener call.case
    by (rule add_stop_sim [where go = go, OF sim o])
next
  case (SetBind q v)
  show ?thesis unfolding perform_body_def SetBind call.case
    by (rule simple_sim(3) [OF o])
qed

lemma step_sim:
  assumes sim: "\<And>t w1 w2. observable w1 = observable w2 \<Longrightarrow> observed (go t w1) = observed (go t w2)"
    and kf: "\<And>t w w'. go t w = Inr w' \<Longrightarrow> keeps_flags w w'"
    and o: "observable w1 = observable w2"
  shows "observed (step go t w1) = observed (step go t w2)"
proof (cases t)
  case (ApplyFn f this)
  show ?thesis unfolding step_def ApplyFn task.case
    by (rule apply_fn_sim [where go = go, OF sim o])
next
  case (RunBody cs)
  show ?thesis unfolding step_def RunBody task.case
    by (rule run_body_sim [where go = go, OF sim o])
next
  case (Perform c)
  show ?thesis unfolding step_def Perform task.case
    by (rule perform_sim [where go = go, OF sim o])
next
  case (Dequeue q)
  show ?thesis unfolding step_def Dequeue task.case
    by (rule dequeue_sim [where go = go, OF sim kf o])
next
  case (DequeueLoop q)
  show ?thesis unfolding step_def DequeueLoop task.case
    by (rule dequeue_loop_sim [where go = go, OF sim o])
qed

lemma exec_sim:
  "observable w1 = observable w2 \<Longrightarrow> observed (exec n t w1) = observed (exec n t w2)"
proof (induction n arbitrary: t w1 w2)
  case 0
  show ?case by simp
next
  case (Suc n)
  show ?case
    unfolding exec.simps
    by (rule step_sim [where go = "exec n", OF Suc.IH exec_kf Suc.prems])
qed

lemma perform_all_sim:
  "observable w1 = observable w2 \<Longrightarrow>
   observed (perform_all n cs w1) = observed (perform_all n cs w2)"
proof (induction cs arbitrary: w1 w2)
  case Nil
  then show ?case by simp
next
  case (Cons c cs)
  show ?case
    unfolding perform_all.simps
    by (rule and_then_sim [OF exec_sim [OF Cons.prems]]) (rule Cons.IH)
qed

lemma run_deferred_list_sim:
  "observable w1 = observable w2 \<Longrightarrow>
   observed (run_deferred_list n ds w1) = observed (run_deferred_list n ds w2)"
proof (induction ds arbitrary: w1 w2)
  case Nil
  then show ?case by simp
next
  case (Cons d ds)
  obtain q tc sc where d: "d = (q, tc, sc)" by (cases d)
  show ?case
    unfolding d run_deferred_list.simps addTriggerEventListener_def addStopEventListener_def
    apply (rule and_then_sim [OF exec_sim [OF Cons.prems]])
    apply (rule and_then_sim [OF exec_sim])
     apply assumption
    apply (rule Cons.IH)
    apply assumption
    done
qed

lemma run_deferred_sim:
  assumes o: "observable w1 = observable w2"
  shows "observed (run_deferred n w1) = observed (run_deferred n w2)"
proof -
  note f = observable_fields [OF o]
  have "observable (w1\<lparr>deferred := []\<rparr>) = observable (w2\<lparr>deferred := []\<rparr>)"
    using f by (intro observableI) simp_all
  then show ?thesis
    unfolding run_deferred_def f(3) by (rule run_deferred_list_sim)
qed

lemma observable_new_requeue:
  "observable (snd (new_stack_callback (Options b False True p tc sc) w)) =
   observable (snd (new_stack_callback (Options b False False p tc sc) w))"
  by (simp add: observable_def effective_def fresh_instance_def)


text \<open>
  Claim C8. Two instances are made in the same store with the same options, but
  \<open>requeue = true\<close> for the first and \<open>requeue = false\<close> for the second, both with
  \<open>refire = false\<close>. After any sequence of calls (whose callbacks may themselves call
  any instance), also when the deferred registrations have run first, an observer who
  disregards the \<open>requeue\<close> property and the message about it sees the same outcome:
  the same error, or stores with the same states, stacks, listeners, closures and the same
  invocations in the same order.
\<close>

theorem requeue_without_refire:
  "observed (perform_all n cs (snd (new_stack_callback (Options b False True p tc sc) w))) =
   observed (perform_all n cs (snd (new_stack_callback (Options b False False p tc sc) w)))
   \<and> observed (and_then (run_deferred n (snd (new_stack_callback (Options b False True p tc sc) w)))
         (perform_all n cs)) =
     observed (and_then (run_deferred n (snd (new_stack_callback (Options b False False p tc sc) w)))
         (perform_all n cs))"
  apply (rule conjI)
   apply (rule perform_all_sim [OF observable_new_requeue])
  apply (rule and_then_sim [OF run_deferred_sim [OF observable_new_requeue]])
  apply (rule perform_all_sim)
  apply assumption
  done

section \<open>Rules for runs that return\<close>

lemma returnsI: "(\<And>n. n0 \<le> n \<Longrightarrow> exec n t w = Inr w') \<Longrightarrow> returns t w w'"
  unfolding returns_def by blast

lemma returns_stepI:
  assumes "\<And>n. n0 \<le> n \<Longrightarrow> step (exec n) t w = Inr w'"
  shows "returns t w w'"
proof (rule returnsI [where ?n0.0 = "Suc n0"])
  fix n assume "Suc n0 \<le> n"
  then obtain m where n: "n = Suc m" and m: "n0 \<le> m" by (cases n) auto
  show "exec n t w = Inr w'" unfolding n exec.simps by (rule assms [OF m])
qed

lemma returns2:
  assumes "returns t1 a a'" and "returns t2 b b'"
  shows "\<exists>N. \<forall>n\<ge>N. exec n t1 a = Inr a' \<and> exec n t2 b = Inr b'"
proof -
  from assms obtain n1 n2 where 1: "\<forall>n\<ge>n1. exec n t1 a = Inr a'" and 2: "\<forall>n\<ge>n2. exec n t2 b = Inr b'"
    unfolding returns_def by blast
  show ?thesis
    by (rule exI [of _ "max n1 n2"]) (use 1 2 in auto)
qed

lemma returns1:
  assumes "returns t1 a a'"
  shows "\<exists>N. \<forall>n\<ge>N. exec n t1 a = Inr a'"
  using assms unfolding returns_def by blast

lemma returns_RunBody_Nil: "returns (RunBody []) w w"
  by (rule returns_stepI [where ?n0.0 = 0]) (simp add: step_def run_body_body_def)

lemma returns_RunBody_Cons:
  assumes "returns (Perform c) w w1" and "returns (RunBody cs) w1 w2"
  shows "returns (RunBody (c # cs)) w w2"
proof -
  obtain N where 1: "\<And>n. N \<le> n \<Longrightarrow> exec n (Perform c) w = Inr w1"
    and 2: "\<And>n. N \<le> n \<Longrightarrow> exec n (RunBody cs) w1 = Inr w2" using returns2 [OF assms] by blast
  show ?thesis
    by (rule returns_stepI [where ?n0.0 = N]) (simp add: step_def run_body_body_def and_then_def 1 2)
qed

lemma returns_ApplyFn:
  assumes "returns (RunBody body) (emit (Invoked (AppFn i body) this) w) w'"
  shows "returns (ApplyFn (AppFn i body) this) w w'"
proof -
  obtain N where 1: "\<And>n. N \<le> n \<Longrightarrow> exec n (RunBody body) (emit (Invoked (AppFn i body) this) w) = Inr w'"
    using returns1 [OF assms] by blast
  show ?thesis
    by (rule returns_stepI [where ?n0.0 = N]) (simp add: step_def apply_fn_body_def 1)
qed

lemma returns_Push_plain:
  assumes "instance_at w q = Some Q" and "stack_push Q = ArrayPush"
  shows "returns (Perform (Push q xs)) w (put_instance q (Q\<lparr>stack := stack Q @ xs\<rparr>) w)"
  by (rule returns_stepI [where ?n0.0 = 0])
     (simp add: step_def perform_body_def push_body_def with_instance_def assms)

lemma returns_Push_watching:
  assumes "instance_at w q = Some Q" and "stack_push Q = Watching"
    and "returns (Dequeue q) (put_instance q (Q\<lparr>stack := stack Q @ xs\<rparr>) w) w'"
  shows "returns (Perform (Push q xs)) w w'"
proof -
  obtain N where 1: "\<And>n. N \<le> n \<Longrightarrow>
      exec n (Dequeue q) (put_instance q (Q\<lparr>stack := stack Q @ xs\<rparr>) w) = Inr w'"
    using returns1 [OF assms(3)] by blast
  show ?thesis
    by (rule returns_stepI [where ?n0.0 = N])
       (simp add: step_def perform_body_def push_body_def with_instance_def assms(1,2) 1)
qed

lemma returns_loop_Nil:
  assumes "instance_at w q = Some Q" and "stack Q = []"
  shows "returns (DequeueLoop q) w w"
  by (rule returns_stepI [where ?n0.0 = 0])
     (simp add: step_def dequeue_loop_body_def with_instance_def assms)

lemma returns_loop_Cons:
  assumes "instance_at w q = Some Q" and "stack Q = JFun f # rest"
    and "returns (ApplyFn f (bind Q)) (put_instance q (Q\<lparr>stack := rest\<rparr>) w) w1"
    and "returns (DequeueLoop q) w1 w2"
  shows "returns (DequeueLoop q) w w2"
proof -
  obtain N where
    1: "\<And>n. N \<le> n \<Longrightarrow> exec n (ApplyFn f (bind Q)) (put_instance q (Q\<lparr>stack := rest\<rparr>) w) = Inr w1"
    and 2: "\<And>n. N \<le> n \<Longrightarrow> exec n (DequeueLoop q) w1 = Inr w2" using returns2 [OF assms(3,4)] by blast
  show ?thesis
    by (rule returns_stepI [where ?n0.0 = N])
       (simp add: step_def dequeue_loop_body_def with_instance_def and_then_def assms(1,2) 1 2)
qed

lemma returns_Stop_waiting:
  assumes "instance_at w q = Some Q" and "\<not> triggered Q"
  shows "returns (Perform (Stop q)) w w"
  by (rule returns_stepI [where ?n0.0 = 0])
     (simp add: step_def perform_body_def stop_body_def with_instance_def assms)

lemma returns_Stop_triggered:
  assumes "instance_at w q = Some Q" and "triggered Q" and "stop_event_listener Q = None"
  shows "returns (Perform (Stop q)) w
           (put_instance q (Q\<lparr>triggered := False, stack_push := ArrayPush\<rparr>) w)"
  by (rule returns_stepI [where ?n0.0 = 0])
     (simp add: step_def perform_body_def stop_body_def with_instance_def assms)

lemma returns_loop_skip:
  assumes "instance_at w q = Some Q" and "stack Q = x # rest" and "truthy x"
    and "as_function x = None"
    and "returns (DequeueLoop q) (put_instance q (Q\<lparr>stack := rest\<rparr>) w) w2"
  shows "returns (DequeueLoop q) w w2"
proof -
  obtain N where 1: "\<And>n. N \<le> n \<Longrightarrow>
      exec n (DequeueLoop q) (put_instance q (Q\<lparr>stack := rest\<rparr>) w) = Inr w2"
    using returns1 [OF assms(5)] by blast
  show ?thesis
    by (rule returns_stepI [where ?n0.0 = N])
       (simp add: step_def dequeue_loop_body_def with_instance_def assms(1,2,3,4) 1)
qed

lemma instance_at_put_same:
  "instance_at w q = Some Q \<Longrightarrow> instance_at (put_instance q Q' w) q = Some Q'"
  by (auto simp: instance_at_def put_instance_def split: if_splits)

lemma returns_Dequeue_refire:
  assumes "instance_at w q = Some Q" and "requeue Q"
    and "returns (DequeueLoop q) w w1"
    and "instance_at w1 q = Some Q1" and "refire Q1" and "stack Q1 = []"
    and "returns (Perform (Stop q)) w1 w2"
    and "instance_at w2 q = Some Q2" and "refire Q2" and "requeue Q2"
  shows "returns (Dequeue q) w (put_instance q (Q2\<lparr>stack := stack Q2 @ stack Q\<rparr>) w2)"
proof -
  obtain N where 1: "\<And>n. N \<le> n \<Longrightarrow> exec n (DequeueLoop q) w = Inr w1"
    and 2: "\<And>n. N \<le> n \<Longrightarrow> exec n (Perform (Stop q)) w1 = Inr w2"
    using returns2 [OF assms(3,7)] by blast
  have 3: "instance_at (put_instance q (Q2\<lparr>stack := stack Q2 @ stack Q\<rparr>) w2) q
             = Some (Q2\<lparr>stack := stack Q2 @ stack Q\<rparr>)"
    by (rule instance_at_put_same [OF assms(8)])
  show ?thesis
    by (rule returns_stepI [where ?n0.0 = N])
       (simp add: step_def dequeue_body_def refire_block_def requeue_check_def with_instance_def
          and_then_def assms(1,2,4,5,6,8,9,10) 1 2 3)
qed

lemma returns_Trigger:
  assumes "instance_at w q = Some Q" and "\<not> triggered Q"
    and "returns (Dequeue q) (put_instance q (Q\<lparr>triggered := True\<rparr>) w) w1"
    and "instance_at w1 q = Some Q1" and "trigger_event_listener Q1 = None"
  shows "returns (Perform (Trigger q)) w (put_instance q (Q1\<lparr>stack_push := Watching\<rparr>) w1)"
proof -
  obtain N where 1: "\<And>n. N \<le> n \<Longrightarrow>
      exec n (Dequeue q) (put_instance q (Q\<lparr>triggered := True\<rparr>) w) = Inr w1"
    using returns1 [OF assms(3)] by blast
  show ?thesis
    by (rule returns_stepI [where ?n0.0 = N])
       (simp add: step_def perform_body_def trigger_body_def with_instance_def and_then_def
          assms(1,2,4,5) 1)
qed

lemma at_instance_simps:
  "q < length (instances w) \<Longrightarrow> instance_at (at_instance w q Q evs) q = Some Q"
  "emit e (at_instance w q Q evs) = at_instance w q Q (evs @ [e])"
  "put_instance q Q' (at_instance w q Q evs) = at_instance w q Q' evs"
  by (simp_all add: at_instance_def instance_at_def put_instance_def emit_def)

lemma calls_simps [simp]:
  "calls b [] = []"
  "calls b (JFun f # xs) = Invoked f b # calls b xs"
  "as_function x = None \<Longrightarrow> calls b (x # xs) = calls b xs"
  "calls b (xs @ ys) = calls b xs @ calls b ys"
  by (simp_all add: calls_def List.map_filter_def)

lemma calls_Cons: "calls b (x # xs) = calls b [x] @ calls b xs"
  by (simp add: calls_def List.map_filter_def)

lemma quietE:
  "quiet x \<Longrightarrow> (\<And>i. x = JFun (AppFn i []) \<Longrightarrow> P) \<Longrightarrow>
   (truthy x \<Longrightarrow> as_function x = None \<Longrightarrow> P) \<Longrightarrow> P"
  by (induction x rule: quiet.induct) simp_all

lemma simple_itemE:
  "simple_item q x \<Longrightarrow> (quiet x \<Longrightarrow> P) \<Longrightarrow>
   (\<And>i xs. x = JFun (AppFn i [Push q xs]) \<Longrightarrow> list_all quiet xs \<Longrightarrow> P) \<Longrightarrow> P"
  by (induction q x rule: simple_item.induct) simp_all

lemma pushed_quiet: "quiet x \<Longrightarrow> pushed x = []"
  by (induction x rule: quiet.induct) simp_all

lemma returns_apply_inert:
  "returns (ApplyFn (AppFn i []) this) w (emit (Invoked (AppFn i []) this) w)"
  by (rule returns_ApplyFn) (rule returns_RunBody_Nil)

lemma loop_quiet_step:
  assumes q: "q < length (instances w)" and x: "quiet x"
    and r: "returns (DequeueLoop q) (at_instance w q (Q\<lparr>stack := rest\<rparr>) (evs @ calls (bind Q) [x])) w'"
  shows "returns (DequeueLoop q) (at_instance w q (Q\<lparr>stack := x # rest\<rparr>) evs) w'"
  using x
proof (rule quietE)
  fix i assume x: "x = JFun (AppFn i [])"
  show ?thesis
  proof (rule returns_loop_Cons)
    show "instance_at (at_instance w q (Q\<lparr>stack := x # rest\<rparr>) evs) q
            = Some (Q\<lparr>stack := x # rest\<rparr>)"
      by (rule at_instance_simps(1) [OF q])
    show "stack (Q\<lparr>stack := x # rest\<rparr>) = JFun (AppFn i []) # rest"
      by (simp add: x)
    show "returns (ApplyFn (AppFn i []) (bind (Q\<lparr>stack := x # rest\<rparr>)))
            (put_instance q (Q\<lparr>stack := x # rest, stack := rest\<rparr>)
               (at_instance w q (Q\<lparr>stack := x # rest\<rparr>) evs))
            (at_instance w q (Q\<lparr>stack := rest\<rparr>) (evs @ [Invoked (AppFn i []) (bind Q)]))"
      using returns_apply_inert [of i "bind Q" "at_instance w q (Q\<lparr>stack := rest\<rparr>) evs"]
      by (simp add: at_instance_simps)
    show "returns (DequeueLoop q)
            (at_instance w q (Q\<lparr>stack := rest\<rparr>) (evs @ [Invoked (AppFn i []) (bind Q)])) w'"
      using r by (simp add: x)
  qed
next
  assume t: "truthy x" and n: "as_function x = None"
  show ?thesis
  proof (rule returns_loop_skip [OF _ _ t n])
    show "instance_at (at_instance w q (Q\<lparr>stack := x # rest\<rparr>) evs) q
            = Some (Q\<lparr>stack := x # rest\<rparr>)"
      by (rule at_instance_simps(1) [OF q])
    show "stack (Q\<lparr>stack := x # rest\<rparr>) = x # rest" by simp
    show "returns (DequeueLoop q)
            (put_instance q (Q\<lparr>stack := x # rest, stack := rest\<rparr>)
               (at_instance w q (Q\<lparr>stack := x # rest\<rparr>) evs)) w'"
      using r by (simp add: at_instance_simps n)
  qed
qed

lemma loop_inert_prefix:
  assumes q: "q < length (instances w)" and a: "list_all quiet a"
    and r: "returns (DequeueLoop q) (at_instance w q (Q\<lparr>stack := rest\<rparr>) (evs @ calls (bind Q) a)) w'"
  shows "returns (DequeueLoop q) (at_instance w q (Q\<lparr>stack := a @ rest\<rparr>) evs) w'"
  using a r
proof (induction a arbitrary: evs)
  case Nil
  then show ?case by simp
next
  case (Cons x a)
  from Cons.prems(1) have x: "quiet x" and ia: "list_all quiet a" by simp_all
  have "calls (bind Q) (x # a) = calls (bind Q) [x] @ calls (bind Q) a"
    by (rule calls_Cons)
  with Cons.prems(2) have "returns (DequeueLoop q)
      (at_instance w q (Q\<lparr>stack := rest\<rparr>) ((evs @ calls (bind Q) [x]) @ calls (bind Q) a)) w'"
    by simp
  from Cons.IH [OF ia this] have "returns (DequeueLoop q)
      (at_instance w q (Q\<lparr>stack := a @ rest\<rparr>) (evs @ calls (bind Q) [x])) w'" .
  from loop_quiet_step [OF q x this] show ?case by simp
qed

lemma loop_inert:
  assumes q: "q < length (instances w)" and a: "list_all quiet a"
  shows "returns (DequeueLoop q) (at_instance w q (Q\<lparr>stack := a\<rparr>) evs)
           (at_instance w q (Q\<lparr>stack := []\<rparr>) (evs @ calls (bind Q) a))"
proof -
  have "returns (DequeueLoop q) (at_instance w q (Q\<lparr>stack := []\<rparr>) (evs @ calls (bind Q) a))
          (at_instance w q (Q\<lparr>stack := []\<rparr>) (evs @ calls (bind Q) a))"
    by (rule returns_loop_Nil [OF at_instance_simps(1) [OF q]]) simp
  from loop_inert_prefix [OF q a this] show ?thesis by simp
qed

lemma returns_apply_pusher_plain:
  assumes q: "q < length (instances w)" and m: "stack_push Q = ArrayPush"
  shows "returns (ApplyFn (AppFn i [Push q ps]) this) (at_instance w q Q evs)
           (at_instance w q (Q\<lparr>stack := stack Q @ ps\<rparr>) (evs @ [Invoked (AppFn i [Push q ps]) this]))"
proof (rule returns_ApplyFn, rule returns_RunBody_Cons)
  show "returns (Perform (Push q ps))
          (emit (Invoked (AppFn i [Push q ps]) this) (at_instance w q Q evs))
          (at_instance w q (Q\<lparr>stack := stack Q @ ps\<rparr>) (evs @ [Invoked (AppFn i [Push q ps]) this]))"
    using returns_Push_plain [of "at_instance w q Q (evs @ [Invoked (AppFn i [Push q ps]) this])" q Q ps]
    by (simp add: at_instance_simps q m)
  show "returns (RunBody [])
          (at_instance w q (Q\<lparr>stack := stack Q @ ps\<rparr>) (evs @ [Invoked (AppFn i [Push q ps]) this]))
          (at_instance w q (Q\<lparr>stack := stack Q @ ps\<rparr>) (evs @ [Invoked (AppFn i [Push q ps]) this]))"
    by (rule returns_RunBody_Nil)
qed

lemma loop_plain:
  assumes q: "q < length (instances w)" and m: "stack_push Q = ArrayPush"
    and xs: "list_all (simple_item q) xs" and ys: "list_all quiet ys"
  shows "returns (DequeueLoop q) (at_instance w q (Q\<lparr>stack := xs @ ys\<rparr>) evs)
           (at_instance w q (Q\<lparr>stack := []\<rparr>)
              (evs @ calls (bind Q) (xs @ ys @ concat (map pushed xs))))"
  using xs ys
proof (induction xs arbitrary: ys evs)
  case Nil
  then show ?case using loop_inert [OF q, of ys Q evs] by simp
next
  case (Cons x xs)
  from Cons.prems have sx: "simple_item q x" and sxs: "list_all (simple_item q) xs" by simp_all
  have "(x # xs) @ ys @ concat (map pushed (x # xs)) =
          x # (xs @ (ys @ pushed x) @ concat (map pushed xs))" by simp
  then have split: "calls (bind Q) ((x # xs) @ ys @ concat (map pushed (x # xs))) =
     calls (bind Q) [x] @ calls (bind Q) (xs @ (ys @ pushed x) @ concat (map pushed xs))"
    by (simp only: calls_Cons [of "bind Q" x "xs @ (ys @ pushed x) @ concat (map pushed xs)"])
  from sx show ?case
  proof (rule simple_itemE)
    assume x: "quiet x"
    have "returns (DequeueLoop q)
            (at_instance w q (Q\<lparr>stack := xs @ ys\<rparr>) (evs @ calls (bind Q) [x]))
            (at_instance w q (Q\<lparr>stack := []\<rparr>)
               (evs @ calls (bind Q) ((x # xs) @ ys @ concat (map pushed (x # xs)))))"
      using Cons.IH [OF sxs Cons.prems(2), of "evs @ calls (bind Q) [x]"]
      unfolding split by (simp add: pushed_quiet [OF x])
    from loop_quiet_step [OF q x this] show ?thesis by simp
  next
    fix i ps assume x: "x = JFun (AppFn i [Push q ps])" and ps: "list_all quiet ps"
    have i: "instance_at (at_instance w q (Q\<lparr>stack := (x # xs) @ ys\<rparr>) evs) q
              = Some (Q\<lparr>stack := (x # xs) @ ys\<rparr>)"
      by (rule at_instance_simps(1) [OF q])
    show ?thesis
    proof (rule returns_loop_Cons [OF i])
      show "stack (Q\<lparr>stack := (x # xs) @ ys\<rparr>) = JFun (AppFn i [Push q ps]) # (xs @ ys)"
        by (simp add: x)
      show "returns (ApplyFn (AppFn i [Push q ps]) (bind (Q\<lparr>stack := (x # xs) @ ys\<rparr>)))
            (put_instance q (Q\<lparr>stack := (x # xs) @ ys, stack := xs @ ys\<rparr>)
               (at_instance w q (Q\<lparr>stack := (x # xs) @ ys\<rparr>) evs))
            (at_instance w q (Q\<lparr>stack := xs @ (ys @ ps)\<rparr>)
               (evs @ [Invoked (AppFn i [Push q ps]) (bind Q)]))"
        using returns_apply_pusher_plain [OF q, of "Q\<lparr>stack := xs @ ys\<rparr>" i ps "bind Q" evs] m
        by (simp add: at_instance_simps)
      show "returns (DequeueLoop q)
            (at_instance w q (Q\<lparr>stack := xs @ (ys @ ps)\<rparr>)
               (evs @ [Invoked (AppFn i [Push q ps]) (bind Q)]))
            (at_instance w q (Q\<lparr>stack := []\<rparr>)
               (evs @ calls (bind Q) ((x # xs) @ ys @ concat (map pushed (x # xs)))))"
        using Cons.IH [OF sxs, of "ys @ ps" "evs @ [Invoked (AppFn i [Push q ps]) (bind Q)]"]
          Cons.prems(2) ps
        unfolding split by (simp add: x)
    qed
  qed
qed

lemma pushed_inert: "list_all quiet a \<Longrightarrow> concat (map pushed a) = []"
  by (induction a) (simp_all add: pushed_quiet)

lemma inert_simple: "quiet x \<Longrightarrow> simple_item q x"
  by (induction q x rule: simple_item.induct) simp_all

lemma update_order:
  "Q\<lparr>triggered := t, stack_push := m, stack := s\<rparr> = Q\<lparr>stack := s, triggered := t, stack_push := m\<rparr>"
  by (cases Q) simp

lemma dequeue_plain:
  assumes q: "q < length (instances w)" and rf: "refire Q" and rq: "requeue Q"
    and t: "triggered Q" and m: "stack_push Q = ArrayPush"
    and sel: "stop_event_listener Q = None" and s: "list_all (simple_item q) s"
  shows "returns (Dequeue q) (at_instance w q (Q\<lparr>stack := s\<rparr>) evs)
           (at_instance w q (Q\<lparr>stack := s, triggered := False, stack_push := ArrayPush\<rparr>)
              (evs @ calls (bind Q) (s @ concat (map pushed s))))"
proof -
  let ?E = "evs @ calls (bind Q) (s @ concat (map pushed s))"
  let ?w1 = "at_instance w q (Q\<lparr>stack := []\<rparr>) ?E"
  let ?Q2 = "Q\<lparr>stack := [], triggered := False, stack_push := ArrayPush\<rparr>"
  have loop: "returns (DequeueLoop q) (at_instance w q (Q\<lparr>stack := s\<rparr>) evs) ?w1"
    using loop_plain [OF q m s, of "[]" evs] by simp
  have stop: "returns (Perform (Stop q)) ?w1 (at_instance w q ?Q2 ?E)"
    using returns_Stop_triggered [of ?w1 q "Q\<lparr>stack := []\<rparr>"] t sel
    by (simp add: at_instance_simps q)
  have "returns (Dequeue q) (at_instance w q (Q\<lparr>stack := s\<rparr>) evs)
          (put_instance q (?Q2\<lparr>stack := stack ?Q2 @ stack (Q\<lparr>stack := s\<rparr>)\<rparr>)
             (at_instance w q ?Q2 ?E))"
    by (rule returns_Dequeue_refire [OF at_instance_simps(1) [OF q] _ loop
          at_instance_simps(1) [OF q] _ _ stop at_instance_simps(1) [OF q]])
       (simp_all add: rf rq)
  then show ?thesis by (simp add: at_instance_simps update_order)
qed

lemma dequeue_inert:
  assumes q: "q < length (instances w)" and rf: "refire Q" and rq: "requeue Q"
    and t: "triggered Q" and sel: "stop_event_listener Q = None" and s: "list_all quiet s"
  shows "returns (Dequeue q) (at_instance w q (Q\<lparr>stack := s\<rparr>) evs)
           (at_instance w q (Q\<lparr>stack := s, triggered := False, stack_push := ArrayPush\<rparr>)
              (evs @ calls (bind Q) s))"
proof -
  let ?E = "evs @ calls (bind Q) s"
  let ?w1 = "at_instance w q (Q\<lparr>stack := []\<rparr>) ?E"
  let ?Q2 = "Q\<lparr>stack := [], triggered := False, stack_push := ArrayPush\<rparr>"
  have loop: "returns (DequeueLoop q) (at_instance w q (Q\<lparr>stack := s\<rparr>) evs) ?w1"
    by (rule loop_inert [OF q s])
  have stop: "returns (Perform (Stop q)) ?w1 (at_instance w q ?Q2 ?E)"
    using returns_Stop_triggered [of ?w1 q "Q\<lparr>stack := []\<rparr>"] t sel
    by (simp add: at_instance_simps q)
  have "returns (Dequeue q) (at_instance w q (Q\<lparr>stack := s\<rparr>) evs)
          (put_instance q (?Q2\<lparr>stack := stack ?Q2 @ stack (Q\<lparr>stack := s\<rparr>)\<rparr>)
             (at_instance w q ?Q2 ?E))"
    by (rule returns_Dequeue_refire [OF at_instance_simps(1) [OF q] _ loop
          at_instance_simps(1) [OF q] _ _ stop at_instance_simps(1) [OF q]])
       (simp_all add: rf rq)
  then show ?thesis by (simp add: at_instance_simps update_order)
qed

lemma first_pusher:
  assumes "list_all (simple_item q) s" and "\<not> list_all quiet s"
  obtains a i ps r where "s = a @ JFun (AppFn i [Push q ps]) # r" and "list_all quiet a"
    and "list_all quiet ps" and "list_all (simple_item q) r"
proof -
  from assms(2) have "\<exists>x\<in>set s. \<not> quiet x" by (simp add: list_all_iff)
  then obtain a p r where s: "s = a @ p # r" and p: "\<not> quiet p" and a: "\<forall>y\<in>set a. \<not> \<not> quiet y"
    by (rule split_list_first_propE)
  from assms(1) s have sp: "simple_item q p" and sr: "list_all (simple_item q) r" by simp_all
  from sp p obtain i ps where "p = JFun (AppFn i [Push q ps])" and "list_all quiet ps"
    by (auto elim: simple_itemE)
  with s a sr show thesis by (intro that [of a i ps r]) (simp_all add: list_all_iff)
qed

lemma filter_inert: "list_all quiet a \<Longrightarrow> filter (\<lambda>x. \<not> quiet x) a = []"
  by (induction a) simp_all

lemma dequeue_watching:
  assumes q: "q < length (instances w)" and rf: "refire Q" and rq: "requeue Q"
    and t: "triggered Q" and m: "stack_push Q = Watching"
    and sel: "stop_event_listener Q = None"
  shows "list_all (simple_item q) s \<Longrightarrow>
         \<exists>evs'. returns (Dequeue q) (at_instance w q (Q\<lparr>stack := s\<rparr>) evs)
                  (at_instance w q (Q\<lparr>stack := s, triggered := False, stack_push := ArrayPush\<rparr>)
                     (evs @ evs'))
              \<and> set (calls (bind Q) (s @ concat (map pushed s))) \<subseteq> set evs'"
proof (induction "length (filter (\<lambda>x. \<not> quiet x) s)" arbitrary: s evs rule: less_induct)
  case less
  show ?case
  proof (cases "list_all quiet s")
    case True
    have "set (calls (bind Q) (s @ concat (map pushed s))) \<subseteq> set (calls (bind Q) s)"
      unfolding pushed_inert [OF True] by simp
    with dequeue_inert [OF q rf rq t sel True, of evs] show ?thesis by blast
  next
    case False
    from less.prems False obtain a i ps r where
      s: "s = a @ JFun (AppFn i [Push q ps]) # r" and a: "list_all quiet a"
      and ps: "list_all quiet ps" and r: "list_all (simple_item q) r"
      by (rule first_pusher)
    let ?p = "AppFn i [Push q ps]"
    let ?E1 = "evs @ calls (bind Q) a @ [Invoked ?p (bind Q)]"
    let ?Q' = "Q\<lparr>triggered := False, stack_push := ArrayPush\<rparr>"
    have smaller: "length (filter (\<lambda>x. \<not> quiet x) (r @ ps)) < length (filter (\<lambda>x. \<not> quiet x) s)"
      by (simp add: s filter_inert [OF a] filter_inert [OF ps])
    have simple: "list_all (simple_item q) (r @ ps)"
      using r ps by (auto simp: list_all_iff intro: inert_simple)
    from less.hyps [OF smaller simple, of ?E1] obtain evs1 where
      nested: "returns (Dequeue q) (at_instance w q (Q\<lparr>stack := r @ ps\<rparr>) ?E1)
                 (at_instance w q (Q\<lparr>stack := r @ ps, triggered := False, stack_push := ArrayPush\<rparr>)
                    (?E1 @ evs1))"
      and sub1: "set (calls (bind Q) ((r @ ps) @ concat (map pushed (r @ ps)))) \<subseteq> set evs1"
      by blast
    let ?w2 = "at_instance w q (?Q'\<lparr>stack := r @ ps\<rparr>) (?E1 @ evs1)"
    let ?E3 = "?E1 @ evs1 @ calls (bind Q) (r @ ps @ concat (map pushed r))"
    let ?w3 = "at_instance w q (?Q'\<lparr>stack := []\<rparr>) ?E3"
    have apply_p: "returns (ApplyFn ?p (bind Q))
        (at_instance w q (Q\<lparr>stack := r\<rparr>) (evs @ calls (bind Q) a)) ?w2"
    proof (rule returns_ApplyFn, rule returns_RunBody_Cons)
      show "returns (Perform (Push q ps))
              (emit (Invoked ?p (bind Q)) (at_instance w q (Q\<lparr>stack := r\<rparr>) (evs @ calls (bind Q) a)))
              ?w2"
        using returns_Push_watching [of "at_instance w q (Q\<lparr>stack := r\<rparr>) ?E1" q "Q\<lparr>stack := r\<rparr>" ps ?w2]
          nested
        by (simp add: at_instance_simps q m update_order)
      show "returns (RunBody []) ?w2 ?w2" by (rule returns_RunBody_Nil)
    qed
    have rest: "returns (DequeueLoop q) ?w2 ?w3"
      using loop_plain [OF q _ r ps, of ?Q' "?E1 @ evs1"] by simp
    have "returns (DequeueLoop q)
            (at_instance w q (Q\<lparr>stack := JFun ?p # r\<rparr>) (evs @ calls (bind Q) a)) ?w3"
      by (rule returns_loop_Cons [OF at_instance_simps(1) [OF q] _ _ rest])
         (use apply_p in \<open>simp_all add: at_instance_simps\<close>)
    from loop_inert_prefix [OF q a this]
    have loop: "returns (DequeueLoop q) (at_instance w q (Q\<lparr>stack := s\<rparr>) evs) ?w3"
      by (simp add: s)
    have stop: "returns (Perform (Stop q)) ?w3 ?w3"
      by (rule returns_Stop_waiting [OF at_instance_simps(1) [OF q]]) simp
    have "returns (Dequeue q) (at_instance w q (Q\<lparr>stack := s\<rparr>) evs)
            (put_instance q
               ((?Q'\<lparr>stack := []\<rparr>)\<lparr>stack := stack (?Q'\<lparr>stack := []\<rparr>) @ stack (Q\<lparr>stack := s\<rparr>)\<rparr>)
               ?w3)"
      by (rule returns_Dequeue_refire [OF at_instance_simps(1) [OF q] _ loop
            at_instance_simps(1) [OF q] _ _ stop at_instance_simps(1) [OF q]])
         (simp_all add: rf rq)
    then have ret: "returns (Dequeue q) (at_instance w q (Q\<lparr>stack := s\<rparr>) evs)
        (at_instance w q (Q\<lparr>stack := s, triggered := False, stack_push := ArrayPush\<rparr>)
           (evs @ (calls (bind Q) a @ [Invoked ?p (bind Q)] @ evs1 @
                   calls (bind Q) (r @ ps @ concat (map pushed r)))))"
      by (simp add: at_instance_simps update_order)
    have sub: "set (calls (bind Q) (s @ concat (map pushed s)))
                \<subseteq> set (calls (bind Q) a @ [Invoked ?p (bind Q)] @ evs1 @
                        calls (bind Q) (r @ ps @ concat (map pushed r)))"
      by (auto simp: s pushed_inert [OF a])
    from ret sub show ?thesis by blast
  qed
qed

lemma dequeue_either:
  assumes q: "q < length (instances w)" and rf: "refire Q" and rq: "requeue Q"
    and t: "triggered Q" and sel: "stop_event_listener Q = None"
    and s: "list_all (simple_item q) s"
  shows "\<exists>evs'. returns (Dequeue q) (at_instance w q (Q\<lparr>stack := s\<rparr>) evs)
                  (at_instance w q (Q\<lparr>stack := s, triggered := False, stack_push := ArrayPush\<rparr>)
                     (evs @ evs'))
              \<and> set (calls (bind Q) (s @ concat (map pushed s))) \<subseteq> set evs'
              \<and> (stack_push Q = ArrayPush \<longrightarrow> evs' = calls (bind Q) (s @ concat (map pushed s)))"
proof (cases "stack_push Q")
  case ArrayPush
  from dequeue_plain [OF q rf rq t ArrayPush sel s, of evs] ArrayPush show ?thesis by blast
next
  case Watching
  from dequeue_watching [OF q rf rq t Watching sel s, of evs] Watching show ?thesis by auto
qed


text \<open>
  Without falsy entries the drain of such an instance does requeue the copy only. An
  instance with \<open>refire\<close> and \<open>requeue\<close>, waiting, without edge
  listeners, whose stack holds simple entries. With any large enough bound,
  \<open>trigger\<close> returns; afterwards the instance is waiting again and its stack is the
  stack it had at the start (the copy pushed back), \<open>stack.push\<close> is the watching
  function and nothing else in the store has changed but the trace. The trace has grown by
  \<open>evs\<close>, which holds the invocation, with \<open>bind\<close> as \<open>this\<close>, of every function
  of the stack and of every function pushed during the drain; the pushed values are not
  on the stack afterwards. When \<open>stack.push\<close> was still the array's own (the first
  trigger), \<open>evs\<close> is exactly these invocations, each once, the entries of the stack
  first.
\<close>

theorem refire_requeue_trigger:
  assumes i: "instance_at w q = Some Q" and rf: "refire Q" and rq: "requeue Q"
    and t: "\<not> triggered Q"
    and tel: "trigger_event_listener Q = None" and sel: "stop_event_listener Q = None"
    and s: "list_all (simple_item q) (stack Q)"
  shows "\<exists>evs n0.
           (\<forall>n\<ge>n0. trigger n q w =
              Inr (put_instance q (Q\<lparr>stack_push := Watching\<rparr>) (w\<lparr>trace := trace w @ evs\<rparr>)))
         \<and> set (calls (bind Q) (stack Q @ concat (map pushed (stack Q)))) \<subseteq> set evs
         \<and> (stack_push Q = ArrayPush \<longrightarrow>
              evs = calls (bind Q) (stack Q @ concat (map pushed (stack Q))))"
proof -
  from i have q: "q < length (instances w)"
    by (auto simp: instance_at_def split: if_splits)
  let ?T = "Q\<lparr>triggered := True\<rparr>"
  from dequeue_either [OF q, of ?T "stack Q" "[]"] rf rq sel s
  obtain evs where
    d: "returns (Dequeue q) (at_instance w q (?T\<lparr>stack := stack Q\<rparr>) [])
          (at_instance w q (?T\<lparr>stack := stack Q, triggered := False, stack_push := ArrayPush\<rparr>) evs)"
    and sub: "set (calls (bind Q) (stack Q @ concat (map pushed (stack Q)))) \<subseteq> set evs"
    and ex: "stack_push Q = ArrayPush \<longrightarrow> evs = calls (bind Q) (stack Q @ concat (map pushed (stack Q)))"
    by auto
  let ?Q1 = "?T\<lparr>stack := stack Q, triggered := False, stack_push := ArrayPush\<rparr>"
  have start: "put_instance q ?T w = at_instance w q (?T\<lparr>stack := stack Q\<rparr>) []"
    by (simp add: at_instance_def)
  have "returns (Perform (Trigger q)) w
          (put_instance q (?Q1\<lparr>stack_push := Watching\<rparr>) (at_instance w q ?Q1 evs))"
    by (rule returns_Trigger [OF i t _ at_instance_simps(1) [OF q]])
       (use d start tel in simp_all)
  moreover have "?Q1\<lparr>stack_push := Watching\<rparr> = Q\<lparr>stack_push := Watching\<rparr>"
    using t by (cases Q) simp
  ultimately have "returns (Perform (Trigger q)) w
      (put_instance q (Q\<lparr>stack_push := Watching\<rparr>) (w\<lparr>trace := trace w @ evs\<rparr>))"
    by (simp add: at_instance_def put_instance_def)
  then obtain n0 where "\<forall>n\<ge>n0. trigger n q w =
      Inr (put_instance q (Q\<lparr>stack_push := Watching\<rparr>) (w\<lparr>trace := trace w @ evs\<rparr>))"
    unfolding returns_def trigger_def by blast
  with sub ex show ?thesis by blast
qed

theorem refire_requeue_trigger_witness:
  "instance_at requeue_example 0 = Some requeue_example_instance
   \<and> list_all (simple_item 0) (stack requeue_example_instance)
   \<and> (\<exists>n0. \<forall>n\<ge>n0. trigger n 0 requeue_example =
         Inr (put_instance 0 (requeue_example_instance\<lparr>stack_push := Watching\<rparr>)
                (requeue_example\<lparr>trace :=
                   [Invoked (AppFn 1 [Push 0 [JFun (AppFn 2 []), JNum 5]]) (JObj 7),
                    Invoked (AppFn 3 []) (JObj 7), Invoked (AppFn 2 []) (JObj 7)]\<rparr>)))
   \<and> trigger 20 0 requeue_example =
         Inr (put_instance 0 (requeue_example_instance\<lparr>stack_push := Watching\<rparr>)
                (requeue_example\<lparr>trace :=
                   [Invoked (AppFn 1 [Push 0 [JFun (AppFn 2 []), JNum 5]]) (JObj 7),
                    Invoked (AppFn 3 []) (JObj 7), Invoked (AppFn 2 []) (JObj 7)]\<rparr>))"
proof -
  have i: "instance_at requeue_example 0 = Some requeue_example_instance"
    by (simp add: requeue_example_def requeue_example_instance_def eval_defs)
  have s: "list_all (simple_item 0) (stack requeue_example_instance)"
    by (simp add: requeue_example_instance_def)
  have t: "trace requeue_example = []"
    by (simp add: requeue_example_def eval_defs)
  from refire_requeue_trigger [OF i _ _ _ _ _ s]
  obtain evs n0 where
    r: "\<forall>n\<ge>n0. trigger n 0 requeue_example =
          Inr (put_instance 0 (requeue_example_instance\<lparr>stack_push := Watching\<rparr>)
                 (requeue_example\<lparr>trace := trace requeue_example @ evs\<rparr>))"
    and e: "stack_push requeue_example_instance = ArrayPush \<longrightarrow>
          evs = calls (bind requeue_example_instance)
                  (stack requeue_example_instance @
                   concat (map pushed (stack requeue_example_instance)))"
    by (auto simp: requeue_example_instance_def)
  from e have "evs = [Invoked (AppFn 1 [Push 0 [JFun (AppFn 2 []), JNum 5]]) (JObj 7),
                    Invoked (AppFn 3 []) (JObj 7), Invoked (AppFn 2 []) (JObj 7)]"
    by (simp add: requeue_example_instance_def)
  with r t have "\<exists>n0. \<forall>n\<ge>n0. trigger n 0 requeue_example =
         Inr (put_instance 0 (requeue_example_instance\<lparr>stack_push := Watching\<rparr>)
                (requeue_example\<lparr>trace :=
                   [Invoked (AppFn 1 [Push 0 [JFun (AppFn 2 []), JNum 5]]) (JObj 7),
                    Invoked (AppFn 3 []) (JObj 7), Invoked (AppFn 2 []) (JObj 7)]\<rparr>))"
    by auto
  moreover have "trigger 20 0 requeue_example =
         Inr (put_instance 0 (requeue_example_instance\<lparr>stack_push := Watching\<rparr>)
                (requeue_example\<lparr>trace :=
                   [Invoked (AppFn 1 [Push 0 [JFun (AppFn 2 []), JNum 5]]) (JObj 7),
                    Invoked (AppFn 3 []) (JObj 7), Invoked (AppFn 2 []) (JObj 7)]\<rparr>))"
    by (simp add: requeue_example_def requeue_example_instance_def eval_defs)
  ultimately show ?thesis using i s by blast
qed

section \<open>The context bound to edge listeners\<close>



















lemma at_simps [simp]:
  "length (instances (at_instance w q Q evs)) = length (instances w)"
  "trace (at_instance w q Q evs) = trace w @ evs"
  "q < length (instances w) \<Longrightarrow> instances (at_instance w q Q evs) ! q = Q"
  "t \<noteq> q \<Longrightarrow> instances (at_instance w q Q evs) ! t = instances w ! t"
  "t \<noteq> q \<Longrightarrow> instance_at (at_instance w q Q evs) t = instance_at w t"
  "q < length (instances w) \<Longrightarrow> instance_at (at_instance w q Q evs) q = Some Q"
  by (simp_all add: at_instance_def put_instance_def instance_at_def)

lemma leaf_at_other [simp]: "t \<noteq> q \<Longrightarrow> leaf (at_instance w q Q evs) t = leaf w t"
  by (simp add: leaf_def)























lemma fresh_simps [simp]:
  "bind (fresh_instance b rf rq JUndefined) = b"
  "stack (fresh_instance b rf rq JUndefined) = []"
  "stack_push (fresh_instance b rf rq p) = ArrayPush"
  by (simp_all add: fresh_instance_def perfect_prepopulated_stack_def compact_def)






lemma listening_new:
  assumes "list_all quiet (perfect_prepopulated_stack p)"
  shows "listening (snd (new_stack_callback (Options b rf rq p tc sc) w)) (length (instances w))"
    and "listening (snd (new_stack_callback (Positional b p) w)) (length (instances w))"
  using assms by (simp_all add: listening_def instance_at_def fresh_instance_def)



end
